theory Spec2Isabelle
  imports Complex_Main "HOL-Library.Word" "HOL-Library.Multiset" "HOL-Library.Char_ord"
    "HOL-Library.List_Lexorder"
begin

section \<open>Dataset builder: train/dev/test split and border trimming\<close>

text \<open>
  A shallow embedding of \<^verbatim>\<open>milestone_content/build_dataset_obama.py\<close>.
  The script lists a directory, keeps the \<^verbatim>\<open>.png\<close> entries, sorts and shuffles them
  with a seeded generator, slices the list 80/10/10 and runs every file through
  \<^verbatim>\<open>deborder_and_save\<close>, which trims a uniform border, composites onto white and saves
  a JPEG.
\<close>

subsection \<open>Python strings and paths\<close>

definition startswith :: "string \<Rightarrow> string \<Rightarrow> bool" where
  "startswith s p = (take (length p) s = p)"

definition endswith :: "string \<Rightarrow> string \<Rightarrow> bool" where
  "endswith s t = (length t \<le> length s \<and> drop (length s - length t) s = t)"

text \<open>\<^verbatim>\<open>s.split(c)\<close> for a one-character separator: never empty, \<^verbatim>\<open>''.split('/') == ['']\<close>.\<close>

fun py_split :: "char \<Rightarrow> string \<Rightarrow> string list" where
  "py_split c [] = [[]]"
| "py_split c (x # xs) =
     (if x = c then [] # py_split c xs
      else (case py_split c xs of
              [] \<Rightarrow> [[x]]
            | w # ws \<Rightarrow> (x # w) # ws))"

text \<open>\<^verbatim>\<open>posixpath.join(a, b)\<close> with two arguments.\<close>

definition os_path_join :: "string \<Rightarrow> string \<Rightarrow> string" where
  "os_path_join a b =
     (if startswith b ''/'' then b
      else if a = [] \<or> endswith a ''/'' then a @ b
      else a @ ''/'' @ b)"

text \<open>\<^verbatim>\<open>s[:-3]\<close>: everything but the last three characters, empty when \<open>s\<close> is shorter.\<close>

definition drop_last3 :: "'a list \<Rightarrow> 'a list" where
  "drop_last3 s = take (length s - 3) s"

text \<open>The path handed to \<^verbatim>\<open>background.save\<close> on line 55.\<close>

definition save_path :: "string \<Rightarrow> string \<Rightarrow> string" where
  "save_path output_dir filename =
     os_path_join output_dir (drop_last3 (last (py_split CHR ''/'' filename))) @ ''jpg''"

subsection \<open>Split boundaries: \<^verbatim>\<open>int(0.8 * n)\<close> in double precision\<close>

text \<open>
  \<^verbatim>\<open>0.8 * len(filenames)\<close> is a multiplication of IEEE-754 doubles: the literal is the
  double nearest to \<open>0.8\<close>, which is \<open>7205759403792794 / 2^53\<close>, the length is converted
  to a double, and the exact product is rounded to 53 significant bits, ties to even.
  \<^verbatim>\<open>int\<close> then truncates.  All values are non-negative and far from the exponent
  limits, so the significand arithmetic is done here on naturals scaled by \<open>2^53\<close>.
\<close>

fun bitlen :: "nat \<Rightarrow> nat" where
  "bitlen n = (if n = 0 then 0 else Suc (bitlen (n div 2)))"

declare bitlen.simps [simp del]

definition round53 :: "nat \<Rightarrow> nat" where
  "round53 p =
     (if p < 2 ^ 53 then p
      else let s = bitlen p - 53; q = p div 2 ^ s; r = p mod 2 ^ s; h = 2 ^ (s - 1)
           in (if h < r \<or> (r = h \<and> odd q) then q + 1 else q) * 2 ^ s)"

definition float_mul_int :: "nat \<Rightarrow> nat \<Rightarrow> nat" where
  "float_mul_int m n = round53 (m * round53 n) div 2 ^ 53"

definition split1_of :: "nat \<Rightarrow> nat" where
  "split1_of n = float_mul_int 7205759403792794 n"

definition split2_of :: "nat \<Rightarrow> nat" where
  "split2_of n = float_mul_int 8106479329266893 n"

subsection \<open>The seeded shuffle\<close>

text \<open>
  \<^verbatim>\<open>random.shuffle\<close> is the Fisher-Yates loop
  \<^verbatim>\<open>for i in reversed(range(1, len(x))): j = randbelow(i + 1); x[i], x[j] = x[j], x[i]\<close>.
  The generator is a parameter: \<open>seed_rng\<close> builds its state from the seed, as
  \<^verbatim>\<open>random.seed\<close> does, and \<open>rb g n\<close> draws an index below \<open>n\<close> and returns the next state.
\<close>

definition rb_ok :: "('g \<Rightarrow> nat \<Rightarrow> nat \<times> 'g) \<Rightarrow> bool" where
  "rb_ok rb = (\<forall>g n. 0 < n \<longrightarrow> fst (rb g n) < n)"

fun shuffle_loop :: "('g \<Rightarrow> nat \<Rightarrow> nat \<times> 'g) \<Rightarrow> nat \<Rightarrow> 'g \<Rightarrow> 'a list \<Rightarrow> 'a list \<times> 'g" where
  "shuffle_loop rb 0 g xs = (xs, g)"
| "shuffle_loop rb (Suc i) g xs =
     (let (j, g') = rb g (Suc i + 1)
      in shuffle_loop rb i g' (xs[Suc i := xs ! j, j := xs ! Suc i]))"

definition shuffle :: "('g \<Rightarrow> nat \<Rightarrow> nat \<times> 'g) \<Rightarrow> 'g \<Rightarrow> 'a list \<Rightarrow> 'a list \<times> 'g" where
  "shuffle rb g xs = shuffle_loop rb (length xs - 1) g xs"

subsection \<open>The split of the top-level script\<close>

record splits =
  train :: "string list"
  dev :: "string list"
  test :: "string list"

text \<open>Line 69: the \<^verbatim>\<open>.png\<close> entries of the listing, joined with the directory.\<close>

definition input_files :: "string \<Rightarrow> string list \<Rightarrow> string list" where
  "input_files data_dir listing =
     map (os_path_join data_dir) (filter (\<lambda>f. endswith f ''.png'') listing)"

text \<open>Lines 78 to 87: the three slices of the shuffled list.\<close>

definition slices :: "string list \<Rightarrow> splits" where
  "slices filenames =
     (let split1 = split1_of (length filenames);
          split2 = split2_of (length filenames)
      in \<lparr>train = take split1 filenames,
          dev = drop split1 (take split2 filenames),
          test = drop split2 filenames\<rparr>)"

text \<open>Lines 68 to 87; the result carries the generator state left behind.\<close>

definition split_dataset ::
  "(int \<Rightarrow> 'g) \<Rightarrow> ('g \<Rightarrow> nat \<Rightarrow> nat \<times> 'g) \<Rightarrow> int \<Rightarrow> string \<Rightarrow> string list \<Rightarrow> splits \<times> 'g" where
  "split_dataset seed_rng rb seed data_dir listing =
     (let filenames = input_files data_dir listing;
          g = seed_rng seed;
          filenames = sort filenames;
          (filenames, g') = shuffle rb g filenames
      in (slices filenames, g'))"


subsection \<open>Images\<close>

text \<open>
  An image is a mode, a size and its pixel data.  The modes are the 8-bit banded modes a
  PNG file decodes to; \<open>px im x y b\<close> is band \<open>b\<close> of the pixel at \<open>(x, y)\<close>, read only
  inside the image.
\<close>

datatype mode = L | LA | RGB | RGBA

fun bands :: "mode \<Rightarrow> nat" where
  "bands L = 1"
| "bands LA = 2"
| "bands RGB = 3"
| "bands RGBA = 4"

record image =
  mode :: mode
  width :: nat
  height :: nat
  px :: "nat \<Rightarrow> nat \<Rightarrow> nat \<Rightarrow> 8 word"

datatype error = FileNotFoundError | IndexError | AttributeError

text \<open>\<^verbatim>\<open>im.getpixel((x, y))\<close>: the tuple of band values, IndexError outside the image.\<close>

definition getpixel :: "image \<Rightarrow> nat \<Rightarrow> nat \<Rightarrow> error + 8 word list" where
  "getpixel im x y =
     (if x < width im \<and> y < height im
      then Inr (map (px im x y) [0..<bands (mode im)])
      else Inl IndexError)"

text \<open>\<^verbatim>\<open>Image.new(mode, size, color)\<close>: every pixel has the given colour.\<close>

definition new_image :: "mode \<Rightarrow> nat \<Rightarrow> nat \<Rightarrow> 8 word list \<Rightarrow> image" where
  "new_image m w h color =
     \<lparr>mode = m, width = w, height = h,
      px = (\<lambda>x y b. if b < length color then color ! b else 0)\<rparr>"

text \<open>\<^verbatim>\<open>ImageChops.difference\<close>: \<^verbatim>\<open>abs(image1 - image2)\<close> band by band.\<close>

definition chop_difference :: "image \<Rightarrow> image \<Rightarrow> image" where
  "chop_difference im1 im2 =
     \<lparr>mode = mode im1,
      width = min (width im1) (width im2),
      height = min (height im1) (height im2),
      px = (\<lambda>x y b. word_of_int \<bar>uint (px im1 x y b) - uint (px im2 x y b)\<bar>)\<rparr>"

text \<open>
  \<^verbatim>\<open>ImageChops.add(image1, image2, scale, offset)\<close> computes
  \<^verbatim>\<open>(image1 + image2) / scale + offset\<close> in floating point, converts to an integer by
  truncation towards zero and clips the result to \<open>0..255\<close>.  The quotient is taken here
  in the rationals, which is what the floating-point division yields whenever the
  quotient is representable, as it is for scale \<open>2.0\<close>.
\<close>

definition trunc :: "rat \<Rightarrow> int" where
  "trunc q = (if 0 \<le> q then \<lfloor>q\<rfloor> else \<lceil>q\<rceil>)"

definition clip8 :: "int \<Rightarrow> 8 word" where
  "clip8 t = (if t \<le> 0 then 0 else if 255 \<le> t then 255 else word_of_int t)"

definition chop_add :: "image \<Rightarrow> image \<Rightarrow> rat \<Rightarrow> int \<Rightarrow> image" where
  "chop_add im1 im2 scale offset =
     \<lparr>mode = mode im1,
      width = min (width im1) (width im2),
      height = min (height im1) (height im2),
      px = (\<lambda>x y b. clip8 (trunc (of_int (uint (px im1 x y b) + uint (px im2 x y b)) / scale
                                    + of_int offset)))\<rparr>"

text \<open>
  \<^verbatim>\<open>im.getbbox()\<close>: the bounding box \<open>(left, upper, right, lower)\<close> of the non-zero
  pixels, right and lower exclusive, or \<^verbatim>\<open>None\<close> when there is none.  Which bands make a
  pixel non-zero depends on the Pillow release: with \<open>alpha_only\<close> (the default of
  current releases) an image with an alpha band is judged by that band alone, otherwise
  by all bands.
\<close>

definition inspected :: "bool \<Rightarrow> mode \<Rightarrow> nat list" where
  "inspected alpha_only m =
     (if alpha_only \<and> (m = LA \<or> m = RGBA) then [bands m - 1] else [0..<bands m])"

definition nonzero :: "bool \<Rightarrow> image \<Rightarrow> nat \<Rightarrow> nat \<Rightarrow> bool" where
  "nonzero alpha_only im x y = list_ex (\<lambda>b. px im x y b \<noteq> 0) (inspected alpha_only (mode im))"

definition bbox_of :: "(nat \<Rightarrow> nat \<Rightarrow> bool) \<Rightarrow> nat \<Rightarrow> nat \<Rightarrow> (nat \<times> nat \<times> nat \<times> nat) option" where
  "bbox_of P w h =
     (let cols = filter (\<lambda>x. list_ex (\<lambda>y. P x y) [0..<h]) [0..<w];
          rows = filter (\<lambda>y. list_ex (\<lambda>x. P x y) [0..<w]) [0..<h]
      in if cols = [] \<or> rows = [] then None
         else Some (hd cols, hd rows, last cols + 1, last rows + 1))"

definition getbbox :: "bool \<Rightarrow> image \<Rightarrow> (nat \<times> nat \<times> nat \<times> nat) option" where
  "getbbox alpha_only im = bbox_of (nonzero alpha_only im) (width im) (height im)"

text \<open>\<^verbatim>\<open>im.crop(box)\<close>: the region of the box; what lies outside the image is zero.\<close>

definition crop :: "image \<Rightarrow> nat \<times> nat \<times> nat \<times> nat \<Rightarrow> image" where
  "crop im box =
     (case box of (l, u, r, d) \<Rightarrow>
        \<lparr>mode = mode im, width = r - l, height = d - u,
         px = (\<lambda>x y b. if x + l < width im \<and> y + u < height im
                        then px im (x + l) (y + u) b else 0)\<rparr>)"

subsection \<open>The border trimmer\<close>

text \<open>
  Lines 27 to 33.  The function has no \<^verbatim>\<open>return\<close> for an empty bounding box, so it
  returns \<^verbatim>\<open>None\<close> there.
\<close>

definition trim :: "bool \<Rightarrow> image \<Rightarrow> error + image option" where
  "trim alpha_only im =
     (case getpixel im 0 0 of
        Inl e \<Rightarrow> Inl e
      | Inr c \<Rightarrow>
          (let bg = new_image (mode im) (width im) (height im) c;
               diff = chop_difference im bg;
               diff = chop_add diff diff 2 (- 100);
               bbox = getbbox alpha_only diff
           in case bbox of
                Some box \<Rightarrow> Inr (Some (crop im box))
              | None \<Rightarrow> Inr None))"

subsection \<open>The per-file pipeline\<close>

text \<open>Line 52: the white background.\<close>

definition new_background :: "image \<Rightarrow> image" where
  "new_background im = new_image RGB (width im) (height im) [255, 255, 255]"

text \<open>
  \<^verbatim>\<open>background.paste(image, mask=m)\<close> at the origin: inside the pasted image every band is
  blended with the mask value.  The blending arithmetic of the library is a parameter.
\<close>

definition paste ::
  "(8 word \<Rightarrow> 8 word \<Rightarrow> 8 word \<Rightarrow> 8 word) \<Rightarrow> image \<Rightarrow> image \<Rightarrow> (nat \<Rightarrow> nat \<Rightarrow> 8 word) \<Rightarrow> image" where
  "paste blend dst src alpha =
     dst\<lparr>px := (\<lambda>x y b. if x < width src \<and> y < height src
                        then blend (alpha x y) (px dst x y b) (px src x y b)
                        else px dst x y b)\<rparr>"

text \<open>
  Lines 43 to 55.  The file system maps a path to the image stored there; saving returns
  the file system with the composite stored under the output path.
\<close>

definition deborder_and_save ::
  "bool \<Rightarrow> (8 word \<Rightarrow> 8 word \<Rightarrow> 8 word \<Rightarrow> 8 word) \<Rightarrow> (string \<rightharpoonup> image) \<Rightarrow> string \<Rightarrow> string
     \<Rightarrow> error + (string \<rightharpoonup> image)" where
  "deborder_and_save alpha_only blend fs filename output_dir =
     (case fs filename of
        None \<Rightarrow> Inl FileNotFoundError
      | Some opened \<Rightarrow>
          (case trim alpha_only opened of
             Inl e \<Rightarrow> Inl e
           | Inr None \<Rightarrow> Inl AttributeError
           | Inr (Some trimmed) \<Rightarrow>
               (let background = new_background trimmed
                in if bands (mode trimmed) \<le> 3 then Inl IndexError
                   else (let background =
                               paste blend background trimmed (\<lambda>x y. px trimmed x y 3)
                         in Inr (fs(save_path output_dir filename \<mapsto> background))))))"


subsection \<open>Vocabulary of the specification\<close>

text \<open>
  A pixel \<open>differs\<close> from the background when some band is not that of pixel \<open>(0, 0)\<close>;
  it is \<open>far\<close> from the background when a band that the bounding box inspects is more
  than 100 away from it.
\<close>

definition differs :: "image \<Rightarrow> nat \<Rightarrow> nat \<Rightarrow> bool" where
  "differs im x y = list_ex (\<lambda>b. px im x y b \<noteq> px im 0 0 b) [0..<bands (mode im)]"

definition far :: "bool \<Rightarrow> image \<Rightarrow> nat \<Rightarrow> nat \<Rightarrow> bool" where
  "far alpha_only im x y =
     list_ex (\<lambda>b. 100 < \<bar>uint (px im x y b) - uint (px im 0 0 b)\<bar>)
       (inspected alpha_only (mode im))"

text \<open>\<open>far_all\<close>: some band of the pixel, whichever it is, is more than 100 away.\<close>

definition far_all :: "image \<Rightarrow> nat \<Rightarrow> nat \<Rightarrow> bool" where
  "far_all im x y =
     list_ex (\<lambda>b. 100 < \<bar>uint (px im x y b) - uint (px im 0 0 b)\<bar>) [0..<bands (mode im)]"

text \<open>\<open>is_bbox P w h box\<close>: the box is the least one around the pixels of \<open>P\<close> in a \<open>w\<close> by \<open>h\<close> image.\<close>

definition is_bbox :: "(nat \<Rightarrow> nat \<Rightarrow> bool) \<Rightarrow> nat \<Rightarrow> nat \<Rightarrow> nat \<times> nat \<times> nat \<times> nat \<Rightarrow> bool" where
  "is_bbox P w h box =
     (case box of (l, u, r, d) \<Rightarrow>
        l < r \<and> r \<le> w \<and> u < d \<and> d \<le> h \<and>
        (\<forall>x < w. \<forall>y < h. P x y \<longrightarrow> l \<le> x \<and> x < r \<and> u \<le> y \<and> y < d) \<and>
        (\<exists>y < h. P l y) \<and> (\<exists>y < h. P (r - 1) y) \<and>
        (\<exists>x < w. P x u) \<and> (\<exists>x < w. P x (d - 1)))"

subsection \<open>Sample inputs\<close>

text \<open>A grey strip of three pixels: background, a faint pixel, a bright pixel.\<close>

definition strip :: image where
  "strip = \<lparr>mode = L, width = 3, height = 1,
            px = (\<lambda>x y b. if x = 1 then 50 else if x = 2 then 200 else 0)\<rparr>"

text \<open>A transparent 3 by 2 RGBA image with one opaque red pixel at \<open>(1, 1)\<close>.\<close>

definition dot :: image where
  "dot = \<lparr>mode = RGBA, width = 3, height = 2,
          px = (\<lambda>x y b. if x = 1 \<and> y = 1 \<and> (b = 0 \<or> b = 3) then 255 else 0)\<rparr>"

text \<open>An opaque black 3 by 2 RGBA image with one red pixel at \<open>(2, 1)\<close>.\<close>

definition opaque :: image where
  "opaque = \<lparr>mode = RGBA, width = 3, height = 2,
             px = (\<lambda>x y b. if b = 3 \<or> (x = 2 \<and> y = 1 \<and> b = 0) then 255 else 0)\<rparr>"

text \<open>A single opaque white pixel.\<close>

definition blank :: image where
  "blank = \<lparr>mode = RGBA, width = 1, height = 1, px = (\<lambda>x y b. 255)\<rparr>"

text \<open>A directory listing in no particular order, and a small generator.\<close>

definition sample_listing :: "string list" where
  "sample_listing =
     [''img7.png'', ''img0.png'', ''notes.txt'', ''img3.png'', ''img9.png'', ''img1.png'',
      ''img5.png'', ''img2.png'', ''img8.png'', ''img4.png'', ''img6.png'']"

definition sample_seed :: "int \<Rightarrow> nat" where
  "sample_seed s = nat \<bar>s\<bar>"

definition sample_rb :: "nat \<Rightarrow> nat \<Rightarrow> nat \<times> nat" where
  "sample_rb g n = (g mod n, 3 * g + 1)"


section \<open>Properties of the split\<close>

subsection \<open>Rounding to 53 bits\<close>

lemma bitlen_bounds: "0 < n \<Longrightarrow> 2 ^ (bitlen n - 1) \<le> n \<and> n < 2 ^ bitlen n"
proof (induction n rule: bitlen.induct)
  case (1 n)
  show ?case
  proof (cases "n div 2 = 0")
    case True
    with 1(2) have "n = 1" by linarith
    then show ?thesis by (simp add: bitlen.simps)
  next
    case False
    then have pos: "0 < n div 2" by simp
    from 1(2) have n0: "n \<noteq> 0" by simp
    from 1(1)[OF n0 pos] have lo: "2 ^ (bitlen (n div 2) - 1) \<le> n div 2"
      and hi: "n div 2 < 2 ^ bitlen (n div 2)" by simp_all
    have bl: "bitlen n = Suc (bitlen (n div 2))" using n0 by (subst bitlen.simps) simp
    have "bitlen (n div 2) \<noteq> 0" using pos by (subst bitlen.simps) simp
    then obtain b where b: "bitlen (n div 2) = Suc b" by (cases "bitlen (n div 2)") auto
    from lo b have "2 * 2 ^ b \<le> 2 * (n div 2)" by simp
    also have "\<dots> \<le> n" by simp
    finally have A: "2 ^ (bitlen n - 1) \<le> n" by (simp add: bl b)
    from hi have "Suc (n div 2) \<le> 2 ^ bitlen (n div 2)" by simp
    then have "2 * Suc (n div 2) \<le> 2 * 2 ^ bitlen (n div 2)" by (rule mult_le_mono2)
    moreover have "n < 2 * Suc (n div 2)" by presburger
    ultimately have B: "n < 2 ^ bitlen n" by (simp add: bl)
    from A B show ?thesis by simp
  qed
qed

lemma round53_small: "p < 2 ^ 53 \<Longrightarrow> round53 p = p"
  by (simp add: round53_def)

lemma round53_lower:
  assumes "2 ^ (bitlen p - 53) dvd t" and "t \<le> p"
  shows "t \<le> round53 p"
proof (cases "p < 2 ^ 53")
  case True
  with assms show ?thesis by (simp add: round53_small)
next
  case False
  define s where "s = bitlen p - 53"
  from assms(1) obtain u where u: "t = 2 ^ s * u" unfolding s_def by (elim dvdE)
  with assms(2) have "u \<le> p div 2 ^ s"
    by (metis less_eq_div_iff_mult_less_eq mult.commute zero_less_numeral zero_less_power)
  then have "t \<le> (p div 2 ^ s) * 2 ^ s" by (simp add: u)
  also have "\<dots> \<le> round53 p"
    using False by (simp add: round53_def Let_def s_def)
  finally show ?thesis .
qed

lemma round53_upper:
  assumes "2 ^ 53 \<le> p"
  shows "round53 p \<le> p + 2 ^ (bitlen p - 54)"
proof -
  define s where "s = bitlen p - 53"
  have "0 < p" using assms by (metis less_le_trans zero_less_numeral zero_less_power)
  from bitlen_bounds[OF this] assms have "2 ^ 53 < (2::nat) ^ bitlen p" by linarith
  then have "53 < bitlen p" by (rule power_less_imp_less_exp[where a="2::nat", rotated]) simp
  then have s1: "s = Suc (bitlen p - 54)" by (simp add: s_def)
  define h :: nat where "h = 2 ^ (bitlen p - 54)"
  have pw: "(2::nat) ^ s = 2 * h" by (simp add: s1 h_def)
  have dm: "p = (p div 2 ^ s) * 2 ^ s + p mod 2 ^ s" by (rule div_mult_mod_eq[symmetric])
  have rlt: "p mod 2 ^ s < 2 * h" using pw by (metis mod_less_divisor zero_less_numeral zero_less_power)
  have r: "round53 p = (if h < p mod 2 ^ s \<or> (p mod 2 ^ s = h \<and> odd (p div 2 ^ s))
                        then p div 2 ^ s + 1 else p div 2 ^ s) * 2 ^ s"
    using assms by (simp add: round53_def Let_def s_def[symmetric] h_def s1)
  show ?thesis
  proof (cases "h < p mod 2 ^ s \<or> (p mod 2 ^ s = h \<and> odd (p div 2 ^ s))")
    case True
    then have "h \<le> p mod 2 ^ s" by auto
    moreover from True r have "round53 p = (p div 2 ^ s) * 2 ^ s + 2 * h"
      by (simp add: pw algebra_simps)
    ultimately show ?thesis using dm unfolding h_def[symmetric] by linarith
  next
    case False
    with r have "round53 p = (p div 2 ^ s) * 2 ^ s" by simp
    then show ?thesis using dm unfolding h_def[symmetric] by linarith
  qed
qed


lemma bitlen_le:
  assumes "p < 2 ^ b" shows "bitlen p \<le> b"
proof (cases "p = 0")
  case True
  then show ?thesis by (simp add: bitlen.simps)
next
  case False
  then have "0 < p" by simp
  from bitlen_bounds[OF this] assms have "(2::nat) ^ (bitlen p - 1) < 2 ^ b" by linarith
  then have "bitlen p - 1 < b" by (rule power_less_imp_less_exp[where a="2::nat", rotated]) simp
  then show ?thesis by simp
qed

lemma float_mul_int_exact:
  assumes cm: "c * m = a * 2 ^ 53 + 2" and c0: "0 < c" and c10: "c \<le> 10"
    and ac: "a < c" and n: "n \<le> 2 ^ 50"
  shows "float_mul_int m n = a * n div c"
proof -
  define k where "k = a * n div c"
  define r where "r = a * n mod c"
  define P where "P = m * n"
  define K where "K = k * 2 ^ 53"
  have an: "a * n = c * k + r" by (simp add: k_def r_def)
  have rc: "Suc r \<le> c" using c0 by (simp add: r_def Suc_le_eq)
  have rb: "r * 2 ^ 53 + 2 ^ 53 \<le> c * 2 ^ 53"
    using mult_le_mono1[OF rc, of "2 ^ 53"] by simp
  have "c * P = (c * m) * n" by (simp add: P_def)
  also have "\<dots> = (a * n) * 2 ^ 53 + 2 * n" by (simp add: cm algebra_simps)
  also have "\<dots> = c * K + r * 2 ^ 53 + 2 * n" by (simp add: an K_def algebra_simps)
  finally have eq: "c * P = c * K + r * 2 ^ 53 + 2 * n" .
  have "c * K \<le> c * P" by (simp add: eq)
  then have lower: "K \<le> P" using c0 by simp
  have n2: "n \<le> 1125899906842624" using n by simp
  have "c * (P + 2 ^ 49) = c * P + c * 2 ^ 49" by (simp add: algebra_simps)
  also have "\<dots> < c * K + c * 2 ^ 53" using eq rb n2 c10 by simp
  also have "\<dots> = c * (K + 2 ^ 53)" by (simp add: algebra_simps)
  finally have "P + 2 ^ 49 < K + 2 ^ 53" using c0 by simp
  then have upper: "P + 2 ^ 49 < Suc k * 2 ^ 53" by (simp add: K_def)
  have mlt: "m < 2 ^ 53"
  proof (rule ccontr)
    assume "\<not> m < 2 ^ 53"
    then have "c * 2 ^ 53 \<le> c * m" by simp
    moreover have "a * 2 ^ 53 + 2 ^ 53 \<le> c * 2 ^ 53"
      using mult_le_mono1[of "Suc a" c "2 ^ 53"] ac by simp
    ultimately show False using cm by simp
  qed
  have "m * n \<le> m * 2 ^ 50" using n by (rule mult_le_mono2)
  also have "\<dots> < 2 ^ 53 * 2 ^ 50" using mlt by simp
  finally have PB: "P < 2 ^ 103" by (simp add: P_def)
  have rn: "round53 n = n" using n by (intro round53_small) simp
  have lo: "K \<le> round53 P"
  proof (rule round53_lower[OF _ lower])
    note PB
    then have "bitlen P \<le> 103" by (rule bitlen_le)
    then have "bitlen P - 53 \<le> 53" by simp
    then have "(2::nat) ^ (bitlen P - 53) dvd 2 ^ 53" by (rule le_imp_power_dvd)
    then show "2 ^ (bitlen P - 53) dvd K" unfolding K_def by (rule dvd_mult)
  qed
  have hi: "round53 P < Suc k * 2 ^ 53"
  proof (cases "P < 2 ^ 53")
    case True
    then show ?thesis using upper by (simp add: round53_small)
  next
    case False
    then have big: "2 ^ 53 \<le> P" by simp
    note PB
    then have "bitlen P \<le> 103" by (rule bitlen_le)
    then have "bitlen P - 54 \<le> 49" by simp
    then have "(2::nat) ^ (bitlen P - 54) \<le> 2 ^ 49" by (rule power_increasing) simp
    with round53_upper[OF big] have "round53 P \<le> P + 2 ^ 49" by linarith
    with upper show ?thesis by linarith
  qed
  have "round53 P div 2 ^ 53 = k"
    by (rule div_nat_eqI) (use lo hi in \<open>simp_all add: K_def mult.commute\<close>)
  then show ?thesis by (simp add: float_mul_int_def rn P_def k_def)
qed

lemma split1_of_exact: "n \<le> 2 ^ 50 \<Longrightarrow> split1_of n = 4 * n div 5"
  unfolding split1_of_def by (rule float_mul_int_exact[where c = 5]) simp_all

lemma split2_of_exact: "n \<le> 2 ^ 50 \<Longrightarrow> split2_of n = 9 * n div 10"
  unfolding split2_of_def by (rule float_mul_int_exact[where c = 10]) simp_all

lemma floor_08: "nat \<lfloor>0.8 * real n\<rfloor> = 4 * n div 5"
proof -
  have "0.8 * real n = real (4 * n) / real 5" by simp
  then show ?thesis by (simp only: floor_divide_of_nat_eq nat_int)
qed

lemma floor_09: "nat \<lfloor>0.9 * real n\<rfloor> = 9 * n div 10"
proof -
  have "0.9 * real n = real (9 * n) / real 10" by simp
  then show ?thesis by (simp only: floor_divide_of_nat_eq nat_int)
qed


lemma bitlen_gt_53:
  assumes "2 ^ 53 \<le> p" shows "53 < bitlen p"
proof -
  have "0 < p" using assms by (metis less_le_trans zero_less_numeral zero_less_power)
  from bitlen_bounds[OF this] assms have "2 ^ 53 < (2::nat) ^ bitlen p" by linarith
  then show ?thesis by (rule power_less_imp_less_exp[where a="2::nat", rotated]) simp
qed

lemma round53_ge_pow:
  assumes "2 ^ 53 \<le> p" shows "2 ^ (bitlen p - 1) \<le> round53 p"
proof (rule round53_lower)
  have "bitlen p - 53 \<le> bitlen p - 1" by simp
  then show "(2::nat) ^ (bitlen p - 53) dvd 2 ^ (bitlen p - 1)" by (rule le_imp_power_dvd)
  have "0 < p" using assms by (metis less_le_trans zero_less_numeral zero_less_power)
  from bitlen_bounds[OF this] show "2 ^ (bitlen p - 1) \<le> p" by simp
qed

lemma round53_le_pow:
  assumes "2 ^ 53 \<le> p" shows "round53 p \<le> 2 ^ bitlen p"
proof -
  define s where "s = bitlen p - 53"
  have e: "bitlen p = s + 53" using bitlen_gt_53[OF assms] by (simp add: s_def)
  have "0 < p" using assms by (metis less_le_trans zero_less_numeral zero_less_power)
  from bitlen_bounds[OF this] have "p < 2 ^ s * 2 ^ 53" by (simp add: e power_add)
  then have "p div 2 ^ s < 2 ^ 53" by (simp add: less_mult_imp_div_less mult.commute)
  then have "p div 2 ^ s + 1 \<le> 2 ^ 53" by simp
  then have A: "(p div 2 ^ s + 1) * 2 ^ s \<le> 2 ^ 53 * 2 ^ s" by (rule mult_le_mono1)
  have "round53 p \<le> (p div 2 ^ s + 1) * 2 ^ s"
    using assms by (simp add: round53_def Let_def s_def)
  also note A
  also have "2 ^ 53 * 2 ^ s = (2::nat) ^ (s + 53)" by (simp only: power_add mult.commute)
  finally show ?thesis by (simp only: e)
qed

lemma round53_mono:
  assumes "p \<le> p'" shows "round53 p \<le> round53 p'"
proof (cases "p' < 2 ^ 53")
  case True
  with assms show ?thesis by (simp add: round53_small)
next
  case big': False
  then have b': "2 ^ 53 \<le> p'" by simp
  show ?thesis
  proof (cases "p < 2 ^ 53")
    case True
    have "(2::nat) ^ 53 \<le> 2 ^ (bitlen p' - 1)"
      using bitlen_gt_53[OF b'] by (intro power_increasing) simp_all
    also have "\<dots> \<le> round53 p'" by (rule round53_ge_pow[OF b'])
    finally show ?thesis using True by (simp add: round53_small)
  next
    case False
    then have b: "2 ^ 53 \<le> p" by simp
    have pos: "0 < p" "0 < p'" using b b' by (metis less_le_trans zero_less_numeral zero_less_power)+
    show ?thesis
    proof (cases "bitlen p = bitlen p'")
      case True
      define s where "s = bitlen p - 53"
      define h :: nat where "h = 2 ^ (s - 1)"
      define up where "up q r \<longleftrightarrow> h < r \<or> (r = h \<and> odd q)" for q r :: nat
      have r: "round53 p = (if up (p div 2 ^ s) (p mod 2 ^ s) then p div 2 ^ s + 1 else p div 2 ^ s) * 2 ^ s"
        using b by (simp add: round53_def Let_def s_def up_def h_def)
      have r': "round53 p' = (if up (p' div 2 ^ s) (p' mod 2 ^ s) then p' div 2 ^ s + 1 else p' div 2 ^ s) * 2 ^ s"
        using b' by (simp add: round53_def Let_def s_def up_def h_def True)
      have qq: "p div 2 ^ s \<le> p' div 2 ^ s" using assms by (rule div_le_mono)
      have "(if up (p div 2 ^ s) (p mod 2 ^ s) then p div 2 ^ s + 1 else p div 2 ^ s)
            \<le> (if up (p' div 2 ^ s) (p' mod 2 ^ s) then p' div 2 ^ s + 1 else p' div 2 ^ s)"
      proof (cases "p div 2 ^ s = p' div 2 ^ s")
        case same: True
        have "p mod 2 ^ s \<le> p' mod 2 ^ s"
          using assms div_mult_mod_eq[of p "2 ^ s"] div_mult_mod_eq[of p' "2 ^ s"] same
          by (metis add_le_cancel_left)
        then have "up (p div 2 ^ s) (p mod 2 ^ s) \<Longrightarrow> up (p' div 2 ^ s) (p' mod 2 ^ s)"
          unfolding up_def same by auto
        then show ?thesis using same by auto
      next
        case False
        with qq have "p div 2 ^ s + 1 \<le> p' div 2 ^ s" by simp
        then show ?thesis by auto
      qed
      then show ?thesis unfolding r r' by (rule mult_le_mono1)
    next
      case False
      have "bitlen p \<le> bitlen p'"
      proof (rule bitlen_le)
        from bitlen_bounds[OF pos(2)] assms show "p < 2 ^ bitlen p'" by linarith
      qed
      with False have "bitlen p \<le> bitlen p' - 1" by simp
      then have "(2::nat) ^ bitlen p \<le> 2 ^ (bitlen p' - 1)" by (rule power_increasing) simp
      with round53_le_pow[OF b] round53_ge_pow[OF b'] show ?thesis by linarith
    qed
  qed
qed

lemma split1_le_split2: "split1_of n \<le> split2_of n"
proof -
  have "7205759403792794 * round53 n \<le> 8106479329266893 * round53 n" by simp
  then have "round53 (7205759403792794 * round53 n) \<le> round53 (8106479329266893 * round53 n)"
    by (rule round53_mono)
  then show ?thesis unfolding split1_of_def split2_of_def float_mul_int_def by (rule div_le_mono)
qed

subsection \<open>Shuffle and slices\<close>

lemma length_shuffle_loop: "length (fst (shuffle_loop rb i g xs)) = length xs"
  by (induction i arbitrary: g xs) (simp_all add: split_def Let_def)

lemma length_shuffle: "length (fst (shuffle rb g xs)) = length xs"
  by (simp add: shuffle_def length_shuffle_loop)

lemma mset_shuffle_loop:
  assumes "rb_ok rb" and "i < length xs"
  shows "mset (fst (shuffle_loop rb i g xs)) = mset xs"
  using assms(2)
proof (induction i arbitrary: g xs)
  case 0
  then show ?case by simp
next
  case (Suc i)
  define j where "j = fst (rb g (Suc i + 1))"
  have "j < Suc i + 1" using assms(1) unfolding rb_ok_def j_def by simp
  with Suc.prems have j: "j < length xs" by simp
  have sw: "mset (xs[Suc i := xs ! j, j := xs ! Suc i]) = mset xs"
    using Suc.prems j by (simp add: mset_swap)
  have "i < length (xs[Suc i := xs ! j, j := xs ! Suc i])" using Suc.prems by simp
  from Suc.IH[OF this] sw show ?case by (simp add: split_def j_def Let_def)
qed

lemma mset_shuffle:
  assumes "rb_ok rb" shows "mset (fst (shuffle rb g xs)) = mset xs"
proof (cases xs)
  case Nil
  then show ?thesis by (simp add: shuffle_def)
next
  case (Cons x ys)
  then have "length xs - 1 < length xs" by simp
  then show ?thesis unfolding shuffle_def by (rule mset_shuffle_loop[OF assms])
qed

lemma slices_append:
  "train (slices fs) @ dev (slices fs) @ test (slices fs) = fs"
proof -
  define a where "a = split1_of (length fs)"
  define b where "b = split2_of (length fs)"
  have ab: "a \<le> b" unfolding a_def b_def by (rule split1_le_split2)
  have "take a fs @ drop a (take b fs) = take b fs"
    using ab by (metis append_take_drop_id min.absorb1 take_take)
  then have "take a fs @ drop a (take b fs) @ drop b fs = fs"
    by (metis append.assoc append_take_drop_id)
  then show ?thesis by (simp add: slices_def Let_def a_def b_def)
qed

lemma slices_lengths:
  assumes "length fs \<le> 2 ^ 50"
  shows "length (train (slices fs)) = 4 * length fs div 5"
    and "length (dev (slices fs)) = 9 * length fs div 10 - 4 * length fs div 5"
    and "length (test (slices fs)) = length fs - 9 * length fs div 10"
  using assms by (simp_all add: slices_def Let_def split1_of_exact split2_of_exact)

lemma split_dataset_fst:
  "fst (split_dataset seed_rng rb seed data_dir listing) =
     slices (fst (shuffle rb (seed_rng seed) (sort (input_files data_dir listing))))"
  by (simp add: split_dataset_def Let_def split_def)

lemma length_shuffled_files:
  "length (fst (shuffle rb g (sort (input_files data_dir listing)))) =
     length (input_files data_dir listing)"
  by (simp add: length_shuffle)

lemma mset_input_files:
  "mset l1 = mset l2 \<Longrightarrow> mset (input_files d l1) = mset (input_files d l2)"
  unfolding input_files_def by (metis mset_filter mset_map)

lemma sort_input_files:
  assumes "mset l1 = mset l2"
  shows "sort (input_files d l1) = sort (input_files d l2)"
  by (rule properties_for_sort) (simp_all add: mset_input_files[OF assms])

lemma split_dataset_cong:
  assumes "sort (input_files d l1) = sort (input_files d l2)"
  shows "split_dataset seed_rng rb seed d l1 = split_dataset seed_rng rb seed d l2"
  using assms by (simp add: split_dataset_def Let_def)

lemma startswith_slash: "CHR ''/'' \<notin> set f \<Longrightarrow> \<not> startswith f ''/''"
  by (cases f) (auto simp: startswith_def)

lemma os_path_join_inj:
  assumes "CHR ''/'' \<notin> set f" "CHR ''/'' \<notin> set f'" "os_path_join d f = os_path_join d f'"
  shows "f = f'"
  using assms by (auto simp: os_path_join_def startswith_slash split: if_splits)

lemma distinct_input_files:
  assumes "distinct listing" and "\<forall>f \<in> set listing. CHR ''/'' \<notin> set f"
  shows "distinct (input_files d listing)"
  unfolding input_files_def
proof (rule iffD2[OF distinct_map], intro conjI)
  show "distinct (filter (\<lambda>f. endswith f ''.png'') listing)" using assms(1) by simp
  show "inj_on (os_path_join d) (set (filter (\<lambda>f. endswith f ''.png'') listing))"
    using assms(2) by (auto intro!: inj_onI dest: os_path_join_inj[rotated 2])
qed

subsection \<open>The claims about the split\<close>

text \<open>
  Claim C1.  The three slices always add up to the \<open>N\<close> input files.  For every list the
  script can hold, that is for \<open>N \<le> 2^50\<close>, their sizes are \<open>floor(0.8 N)\<close>,
  \<open>floor(0.9 N) - floor(0.8 N)\<close> and \<open>N - floor(0.9 N)\<close>: up to there the
  double-precision products \<^verbatim>\<open>0.8 * N\<close> and \<^verbatim>\<open>0.9 * N\<close> truncate to the exact floors.
\<close>

theorem split_sizes:
  assumes "sp = fst (split_dataset seed_rng rb seed data_dir listing)"
    and "N = length (input_files data_dir listing)"
  shows "length (train sp) + length (dev sp) + length (test sp) = N \<and>
    (N \<le> 2 ^ 50 \<longrightarrow>
       length (train sp) = nat \<lfloor>0.8 * real N\<rfloor> \<and>
       length (dev sp) = nat \<lfloor>0.9 * real N\<rfloor> - nat \<lfloor>0.8 * real N\<rfloor> \<and>
       length (test sp) = N - nat \<lfloor>0.9 * real N\<rfloor>)"
proof -
  define fs where "fs = fst (shuffle rb (seed_rng seed) (sort (input_files data_dir listing)))"
  have sp: "sp = slices fs" unfolding assms(1) fs_def by (rule split_dataset_fst)
  have len: "length fs = N" unfolding fs_def assms(2) by (rule length_shuffled_files)
  have "length (train sp @ dev sp @ test sp) = N"
    unfolding sp slices_append by (rule len)
  then have total: "length (train sp) + length (dev sp) + length (test sp) = N" by simp
  have "length (train sp) = nat \<lfloor>0.8 * real N\<rfloor> \<and>
        length (dev sp) = nat \<lfloor>0.9 * real N\<rfloor> - nat \<lfloor>0.8 * real N\<rfloor> \<and>
        length (test sp) = N - nat \<lfloor>0.9 * real N\<rfloor>" if "N \<le> 2 ^ 50"
  proof -
    from that have "length fs \<le> 2 ^ 50" by (simp only: len)
    from slices_lengths[OF this] show ?thesis
      unfolding sp len floor_08 floor_09 by simp
  qed
  with total show ?thesis by blast
qed

text \<open>The sample directory of ten images and one text file splits 8/1/1.\<close>

theorem split_sizes_witness:
  "length (input_files ''data'' sample_listing) = 10 \<and> (10::nat) \<le> 2 ^ 50 \<and>
   length (train (fst (split_dataset sample_seed sample_rb 1 ''data'' sample_listing))) = 8 \<and>
   length (dev (fst (split_dataset sample_seed sample_rb 1 ''data'' sample_listing))) = 1 \<and>
   length (test (fst (split_dataset sample_seed sample_rb 1 ''data'' sample_listing))) = 1"
proof -
  have n: "length (input_files ''data'' sample_listing) = 10"
    by (simp add: input_files_def sample_listing_def endswith_def)
  have f: "nat \<lfloor>0.8 * real 10\<rfloor> = 8" "nat \<lfloor>0.9 * real 10\<rfloor> = 9" by simp_all
  show ?thesis
    using split_sizes[OF refl n[symmetric], of sample_seed sample_rb 1] n f by simp
qed

text \<open>
  Claim C2.  A directory listing has no duplicate names and no name contains a slash.
  For every such listing, and every generator that draws below its bound, the train, dev
  and test lists are pairwise disjoint and together are exactly the input files; no file
  occurs twice.
\<close>

theorem split_partition:
  assumes "rb_ok rb" and "distinct listing" and "\<forall>f \<in> set listing. CHR ''/'' \<notin> set f"
    and "sp = fst (split_dataset seed_rng rb seed data_dir listing)"
  shows "set (train sp) \<inter> set (dev sp) = {} \<and> set (train sp) \<inter> set (test sp) = {} \<and>
         set (dev sp) \<inter> set (test sp) = {} \<and>
         set (train sp) \<union> set (dev sp) \<union> set (test sp) = set (input_files data_dir listing) \<and>
         distinct (train sp @ dev sp @ test sp)"
proof -
  define fs where "fs = fst (shuffle rb (seed_rng seed) (sort (input_files data_dir listing)))"
  have sp: "sp = slices fs" unfolding assms(4) fs_def by (rule split_dataset_fst)
  have cat: "train sp @ dev sp @ test sp = fs" unfolding sp by (rule slices_append)
  have ms: "mset fs = mset (input_files data_dir listing)"
    unfolding fs_def by (simp add: mset_shuffle[OF assms(1)])
  have "distinct (input_files data_dir listing)"
    using assms(2,3) by (rule distinct_input_files)
  with ms have d: "distinct fs" by (metis mset_eq_imp_distinct_iff)
  from ms have s: "set fs = set (input_files data_dir listing)" by (rule mset_eq_setD)
  from d have "distinct (train sp @ dev sp @ test sp)" by (simp only: cat)
  moreover from s have "set (train sp @ dev sp @ test sp) = set (input_files data_dir listing)"
    by (simp only: cat)
  ultimately show ?thesis by auto
qed

text \<open>The hypotheses of the partition theorem hold for the sample directory.\<close>

theorem split_partition_witness:
  "rb_ok sample_rb \<and> distinct sample_listing \<and>
   list_all (\<lambda>f. CHR ''/'' \<notin> set f) sample_listing \<and>
   set (train (fst (split_dataset sample_seed sample_rb 1 ''data'' sample_listing)))
     \<inter> set (dev (fst (split_dataset sample_seed sample_rb 1 ''data'' sample_listing))) = {} \<and>
   set (train (fst (split_dataset sample_seed sample_rb 1 ''data'' sample_listing)))
     \<union> set (dev (fst (split_dataset sample_seed sample_rb 1 ''data'' sample_listing)))
     \<union> set (test (fst (split_dataset sample_seed sample_rb 1 ''data'' sample_listing)))
     = set (input_files ''data'' sample_listing)"
proof -
  have a: "rb_ok sample_rb" by (simp add: rb_ok_def sample_rb_def)
  have b: "distinct sample_listing" by (simp add: sample_listing_def)
  have c: "\<forall>f \<in> set sample_listing. CHR ''/'' \<notin> set f" by (simp add: sample_listing_def)
  have c': "list_all (\<lambda>f. CHR ''/'' \<notin> set f) sample_listing" by (simp add: sample_listing_def)
  from split_partition[OF a b c refl, of sample_seed 1 "''data''"] a b c' show ?thesis by blast
qed

text \<open>
  Claim C3.  Two runs with the same seed over the same multiset of directory entries,
  whatever the order of the two listings, produce the same three lists, hence the same
  assignment of files to splits, and leave the generator in the same state.
\<close>

theorem split_deterministic:
  assumes "mset listing1 = mset listing2"
  shows "split_dataset seed_rng rb seed data_dir listing1 =
         split_dataset seed_rng rb seed data_dir listing2"
  by (rule split_dataset_cong) (rule sort_input_files[OF assms])

text \<open>The sample directory listed forwards and backwards.\<close>

theorem split_deterministic_witness:
  "mset sample_listing = mset (rev sample_listing) \<and>
   split_dataset sample_seed sample_rb 1 ''data'' sample_listing =
   split_dataset sample_seed sample_rb 1 ''data'' (rev sample_listing)"
proof -
  have m: "mset sample_listing = mset (rev sample_listing)" by simp
  from split_deterministic[OF m] m show ?thesis by blast
qed

text \<open>
  Claim C9.  Two enumerations of the same set of directory entries are sorted into the
  same list before the seeded shuffle, so the train, dev and test lists are the same.
\<close>

theorem split_order_independent:
  assumes "distinct listing1" and "distinct listing2" and "set listing1 = set listing2"
  shows "sort (input_files data_dir listing1) = sort (input_files data_dir listing2) \<and>
         fst (split_dataset seed_rng rb seed data_dir listing1) =
         fst (split_dataset seed_rng rb seed data_dir listing2)"
proof -
  from assms have "mset listing1 = mset listing2" by (simp add: set_eq_iff_mset_eq_distinct)
  then have "sort (input_files data_dir listing1) = sort (input_files data_dir listing2)"
    by (rule sort_input_files)
  moreover from this
  have "split_dataset seed_rng rb seed data_dir listing1 =
        split_dataset seed_rng rb seed data_dir listing2"
    by (rule split_dataset_cong)
  ultimately show ?thesis by simp
qed

text \<open>Three files listed in two orders.\<close>

theorem split_order_independent_witness:
  "distinct [''b.png'', ''a.png'', ''c.png''] \<and> distinct [''c.png'', ''b.png'', ''a.png''] \<and>
   set [''b.png'', ''a.png'', ''c.png''] = set [''c.png'', ''b.png'', ''a.png''] \<and>
   fst (split_dataset sample_seed sample_rb 5 ''in'' [''b.png'', ''a.png'', ''c.png'']) =
   fst (split_dataset sample_seed sample_rb 5 ''in'' [''c.png'', ''b.png'', ''a.png''])"
proof -
  have d1: "distinct [''b.png'', ''a.png'', ''c.png'']" by simp
  have d2: "distinct [''c.png'', ''b.png'', ''a.png'']" by simp
  have s: "set [''b.png'', ''a.png'', ''c.png''] = set [''c.png'', ''b.png'', ''a.png'']" by auto
  from split_order_independent[OF d1 d2 s] d1 d2 s show ?thesis by blast
qed

section \<open>Properties of the image pipeline\<close>

subsection \<open>Fields of the image operations\<close>

lemma mode_chop_difference [simp]: "mode (chop_difference a b) = mode a"
  and width_chop_difference [simp]: "width (chop_difference a b) = min (width a) (width b)"
  and height_chop_difference [simp]: "height (chop_difference a b) = min (height a) (height b)"
  and px_chop_difference [simp]:
    "px (chop_difference a b) x y c = word_of_int \<bar>uint (px a x y c) - uint (px b x y c)\<bar>"
  by (simp_all add: chop_difference_def)

lemma mode_chop_add [simp]: "mode (chop_add a b s t) = mode a"
  and width_chop_add [simp]: "width (chop_add a b s t) = min (width a) (width b)"
  and height_chop_add [simp]: "height (chop_add a b s t) = min (height a) (height b)"
  by (simp_all add: chop_add_def)

lemma px_chop_add:
  "px (chop_add a b s t) x y c =
     clip8 (trunc (of_int (uint (px a x y c) + uint (px b x y c)) / s + of_int t))"
  by (simp add: chop_add_def)

lemma mode_new_image [simp]: "mode (new_image m w h c) = m"
  and width_new_image [simp]: "width (new_image m w h c) = w"
  and height_new_image [simp]: "height (new_image m w h c) = h"
  and px_new_image [simp]: "px (new_image m w h c) x y b = (if b < length c then c ! b else 0)"
  by (simp_all add: new_image_def)

lemma mode_crop [simp]: "mode (crop im (l, u, r, d)) = mode im"
  and width_crop [simp]: "width (crop im (l, u, r, d)) = r - l"
  and height_crop [simp]: "height (crop im (l, u, r, d)) = d - u"
  and px_crop: "px (crop im (l, u, r, d)) x y b =
     (if x + l < width im \<and> y + u < height im then px im (x + l) (y + u) b else 0)"
  by (simp_all add: crop_def)

lemma trunc_of_int [simp]: "trunc (of_int k) = k"
  by (simp add: trunc_def)

lemma amplify_self:
  "px (chop_add d d 2 (- 100)) x y b = clip8 (uint (px d x y b) - 100)"
proof -
  have "(of_int (uint (px d x y b) + uint (px d x y b)) / 2 + of_int (- 100) :: rat)
        = of_int (uint (px d x y b) - 100)"
    by simp
  then show ?thesis by (simp only: px_chop_add trunc_of_int)
qed

lemma clip8_eq_0_iff: "clip8 t = 0 \<longleftrightarrow> t \<le> 0"
proof -
  have "t < 255 \<Longrightarrow> 0 < t \<Longrightarrow> (word_of_int t :: 8 word) \<noteq> 0"
    by (simp add: word_of_int_eq_0_iff zdvd_not_zless)
  then show ?thesis by (auto simp: clip8_def)
qed

lemma uint_clip8: "uint (clip8 t) = (if t \<le> 0 then 0 else if 255 \<le> t then 255 else t)"
  by (simp add: clip8_def uint_word_of_int take_bit_int_eq_self)

lemma uint_abs_diff:
  "uint (word_of_int \<bar>uint (a :: 8 word) - uint (b :: 8 word)\<bar> :: 8 word) = \<bar>uint a - uint b\<bar>"
proof -
  have "uint a < 256" "uint b < 256" using uint_bounded[of a] uint_bounded[of b] by simp_all
  moreover have "0 \<le> uint a" "0 \<le> uint b" by simp_all
  ultimately have "\<bar>uint a - uint b\<bar> < 256" by linarith
  then show ?thesis by (simp add: uint_word_of_int take_bit_int_eq_self)
qed

lemma inspected_lt_bands: "b \<in> set (inspected ao m) \<Longrightarrow> b < bands m"
  by (cases m) (auto simp: inspected_def split: if_splits)

text \<open>The image whose bounding box \<open>trim\<close> takes.\<close>

lemma nonzero_amplified:
  "nonzero ao (chop_add (chop_difference im (new_image (mode im) w h (map (px im 0 0) [0..<bands (mode im)])))
                        (chop_difference im (new_image (mode im) w h (map (px im 0 0) [0..<bands (mode im)])))
                        2 (- 100)) x y
   = far ao im x y"
proof -
  have "(px (chop_add (chop_difference im (new_image (mode im) w h (map (px im 0 0) [0..<bands (mode im)])))
                        (chop_difference im (new_image (mode im) w h (map (px im 0 0) [0..<bands (mode im)])))
                        2 (- 100)) x y b \<noteq> 0)
        = (100 < \<bar>uint (px im x y b) - uint (px im 0 0 b)\<bar>)"
    if "b \<in> set (inspected ao (mode im))" for b
  proof -
    from that have "b < bands (mode im)" by (rule inspected_lt_bands)
    then show ?thesis
      by (simp add: amplify_self clip8_eq_0_iff uint_abs_diff not_le)
  qed
  then show ?thesis
    by (simp add: nonzero_def far_def list_ex_iff cong: bex_cong)
qed

lemma trim_empty: "width im = 0 \<or> height im = 0 \<Longrightarrow> trim ao im = Inl IndexError"
  by (auto simp: trim_def getpixel_def)

lemma trim_eq:
  assumes "0 < width im" and "0 < height im"
  shows "trim ao im =
     (case bbox_of (far ao im) (width im) (height im) of
        Some box \<Rightarrow> Inr (Some (crop im box))
      | None \<Rightarrow> Inr None)"
proof -
  have "nonzero ao (chop_add (chop_difference im (new_image (mode im) (width im) (height im) (map (px im 0 0) [0..<bands (mode im)])))
                        (chop_difference im (new_image (mode im) (width im) (height im) (map (px im 0 0) [0..<bands (mode im)])))
                        2 (- 100)) = far ao im"
    by (intro ext) (rule nonzero_amplified)
  then show ?thesis
    using assms by (simp add: trim_def getpixel_def Let_def getbbox_def)
qed

subsection \<open>Bounding boxes\<close>

lemma filter_upt_set: "set (filter Q [0..<n]) = {x. x < n \<and> Q x}"
  by auto

lemma hd_filter_upt_le:
  assumes "x \<in> set (filter Q [0..<n])" shows "hd (filter Q [0..<n]) \<le> x"
proof -
  have s: "sorted (filter Q [0..<n])" by (rule sorted_wrt_filter) simp
  from assms obtain z zs where zs: "filter Q [0..<n] = z # zs" by (cases "filter Q [0..<n]") auto
  with s assms show ?thesis by (auto simp: zs)
qed

lemma le_last_sorted: "sorted xs \<Longrightarrow> x \<in> set xs \<Longrightarrow> x \<le> last xs"
  by (induction xs) (auto split: if_splits)

lemma le_last_filter_upt:
  assumes "x \<in> set (filter Q [0..<n])" shows "x \<le> last (filter Q [0..<n])"
proof -
  have "sorted (filter Q [0..<n])" by (rule sorted_wrt_filter) simp
  then show ?thesis using assms by (rule le_last_sorted)
qed

lemma bbox_of_None_iff: "bbox_of P w h = None \<longleftrightarrow> \<not> (\<exists>x<w. \<exists>y<h. P x y)"
  by (auto simp: bbox_of_def Let_def filter_empty_conv list_ex_iff) blast

lemma bbox_of_Some:
  assumes "bbox_of P w h = Some box"
  shows "is_bbox P w h box"
proof -
  define cols where "cols = filter (\<lambda>x. list_ex (\<lambda>y. P x y) [0..<h]) [0..<w]"
  define rows where "rows = filter (\<lambda>y. list_ex (\<lambda>x. P x y) [0..<w]) [0..<h]"
  from assms have ne: "cols \<noteq> []" "rows \<noteq> []"
    and box: "box = (hd cols, hd rows, last cols + 1, last rows + 1)"
    by (auto simp: bbox_of_def Let_def cols_def rows_def split: if_splits)
  have cset: "set cols = {x. x < w \<and> (\<exists>y<h. P x y)}"
    unfolding cols_def by (auto simp: list_ex_iff)
  have rset: "set rows = {y. y < h \<and> (\<exists>x<w. P x y)}"
    unfolding rows_def by (auto simp: list_ex_iff)
  have hc: "hd cols \<in> set cols" and lc: "last cols \<in> set cols"
    and hr: "hd rows \<in> set rows" and lr: "last rows \<in> set rows"
    using ne by simp_all
  have cb: "hd cols \<le> x \<and> x \<le> last cols" if "x \<in> set cols" for x
    using that hd_filter_upt_le le_last_filter_upt unfolding cols_def by blast
  have rb: "hd rows \<le> y \<and> y \<le> last rows" if "y \<in> set rows" for y
    using that hd_filter_upt_le le_last_filter_upt unfolding rows_def by blast
  have inside: "hd cols \<le> x \<and> x < last cols + 1 \<and> hd rows \<le> y \<and> y < last rows + 1"
    if "x < w" "y < h" "P x y" for x y
  proof -
    from that have "x \<in> set cols" "y \<in> set rows" unfolding cset rset by auto
    with cb rb show ?thesis by (simp add: less_Suc_eq_le)
  qed
  have "hd cols < last cols + 1" using cb[OF hc] by simp
  moreover have "last cols + 1 \<le> w" using lc unfolding cset by simp
  moreover have "hd rows < last rows + 1" using rb[OF hr] by simp
  moreover have "last rows + 1 \<le> h" using lr unfolding rset by simp
  moreover have "\<exists>y<h. P (hd cols) y" using hc unfolding cset by simp
  moreover have "\<exists>y<h. P (last cols + 1 - 1) y" using lc unfolding cset by simp
  moreover have "\<exists>x<w. P x (hd rows)" using hr unfolding rset by simp
  moreover have "\<exists>x<w. P x (last rows + 1 - 1)" using lr unfolding rset by simp
  ultimately show ?thesis
    unfolding is_bbox_def box using inside by simp
qed

lemma is_bbox_unique:
  assumes "is_bbox P w h box" and "is_bbox P w h box'"
  shows "box = box'"
proof -
  obtain l u r d where b: "box = (l, u, r, d)" by (cases box) auto
  obtain l' u' r' d' where b': "box' = (l', u', r', d')" by (cases box') auto
  from assms(1) have A: "l < r" "r \<le> w" "u < d" "d \<le> h"
    "\<And>x y. x < w \<Longrightarrow> y < h \<Longrightarrow> P x y \<Longrightarrow> l \<le> x \<and> x < r \<and> u \<le> y \<and> y < d"
    "\<exists>y<h. P l y" "\<exists>y<h. P (r - 1) y" "\<exists>x<w. P x u" "\<exists>x<w. P x (d - 1)"
    unfolding b is_bbox_def by auto
  from assms(2) have B: "l' < r'" "r' \<le> w" "u' < d'" "d' \<le> h"
    "\<And>x y. x < w \<Longrightarrow> y < h \<Longrightarrow> P x y \<Longrightarrow> l' \<le> x \<and> x < r' \<and> u' \<le> y \<and> y < d'"
    "\<exists>y<h. P l' y" "\<exists>y<h. P (r' - 1) y" "\<exists>x<w. P x u'" "\<exists>x<w. P x (d' - 1)"
    unfolding b' is_bbox_def by auto
  have lw: "l < w" "l' < w" "r - 1 < w" "r' - 1 < w" "u < h" "u' < h" "d - 1 < h" "d' - 1 < h"
    using A(1-4) B(1-4) by linarith+
  have "l' \<le> l" "l \<le> l'" using A(5,6) B(5,6) lw by blast+
  then have 1: "l = l'" by simp
  have "r - 1 < r'" "r' - 1 < r" using A(5,7) B(5,7) lw by blast+
  with A(1) B(1) have 2: "r = r'" by linarith
  have "u' \<le> u" "u \<le> u'" using A(5,8) B(5,8) lw by blast+
  then have 3: "u = u'" by simp
  have "d - 1 < d'" "d' - 1 < d" using A(5,9) B(5,9) lw by blast+
  with A(3) B(3) have 4: "d = d'" by linarith
  show ?thesis unfolding b b' using 1 2 3 4 by simp
qed

subsection \<open>The pipeline on the sample images\<close>

lemma deborder_and_save_eq:
  assumes "fs filename = Some opened" and "trim ao opened = Inr (Some t)"
    and "3 < bands (mode t)"
  shows "deborder_and_save ao blend fs filename output_dir =
         Inr (fs(save_path output_dir filename \<mapsto>
                paste blend (new_background t) t (\<lambda>x y. px t x y 3)))"
  using assms by (simp add: deborder_and_save_def Let_def)

lemma deborder_and_save_InrD:
  assumes "deborder_and_save ao blend fs filename output_dir = Inr fs'"
  shows "\<exists>opened t. fs filename = Some opened \<and> trim ao opened = Inr (Some t) \<and>
           3 < bands (mode t) \<and>
           fs' = fs(save_path output_dir filename \<mapsto>
                    paste blend (new_background t) t (\<lambda>x y. px t x y 3))"
  using assms
  by (auto simp: deborder_and_save_def Let_def split: option.splits sum.splits if_splits)

lemma bands_gt3: "3 < bands m \<longleftrightarrow> m = RGBA"
  by (cases m) simp_all

lemma new_background_fields:
  "width (new_background im) = width im" "height (new_background im) = height im"
  "mode (new_background im) = RGB"
  by (simp_all add: new_background_def)

text \<open>Evaluation on the sample images.\<close>

lemma strip_fields: "mode strip = L" "width strip = 3" "height strip = 1"
  by (simp_all add: strip_def)

lemma dot_fields: "mode dot = RGBA" "width dot = 3" "height dot = 2"
  by (simp_all add: dot_def)

lemma blank_fields: "mode blank = RGBA" "width blank = 1" "height blank = 1"
  by (simp_all add: blank_def)

lemma far_strip: "far ao strip x y \<longleftrightarrow> x = 2"
  by (simp add: far_def strip_def inspected_def)

lemma differs_strip: "differs strip x y \<longleftrightarrow> x = 1 \<or> x = 2"
  by (simp add: differs_def strip_def)

lemma far_dot: "far ao dot x y \<longleftrightarrow> x = 1 \<and> y = 1"
  by (cases ao) (auto simp: far_def dot_def inspected_def upt_rec)

lemma far_blank: "\<not> far ao blank x y"
  by (simp add: far_def blank_def inspected_def list_ex_iff)

lemma bbox_far_strip: "bbox_of (far ao strip) 3 1 = Some (2, 0, 3, 1)"
  by (simp add: bbox_of_def far_strip upt_rec)

lemma bbox_differs_strip: "bbox_of (differs strip) 3 1 = Some (1, 0, 3, 1)"
  by (simp add: bbox_of_def differs_strip upt_rec)

lemma bbox_far_dot: "bbox_of (far ao dot) 3 2 = Some (1, 1, 2, 2)"
  by (simp add: bbox_of_def far_dot upt_rec)

lemma trim_strip: "trim ao strip = Inr (Some (crop strip (2, 0, 3, 1)))"
proof -
  have "0 < width strip" "0 < height strip" by (simp_all add: strip_fields)
  from trim_eq[OF this] show ?thesis by (simp only: strip_fields bbox_far_strip option.case)
qed

lemma trim_dot: "trim ao dot = Inr (Some (crop dot (1, 1, 2, 2)))"
proof -
  have "0 < width dot" "0 < height dot" by (simp_all add: dot_fields)
  from trim_eq[OF this] show ?thesis by (simp only: dot_fields bbox_far_dot option.case)
qed

lemma trim_blank: "trim ao blank = Inr None"
proof -
  have "0 < width blank" "0 < height blank" by (simp_all add: blank_fields)
  moreover have "bbox_of (far ao blank) (width blank) (height blank) = None"
    by (simp add: bbox_of_None_iff far_blank)
  ultimately show ?thesis by (simp only: trim_eq option.case)
qed

lemma far_eq_far_all:
  assumes "\<not> (alpha_only \<and> (mode im = LA \<or> mode im = RGBA))"
  shows "far alpha_only im = far_all im"
proof (intro ext)
  fix x y
  from assms have "inspected alpha_only (mode im) = [0..<bands (mode im)]"
    by (auto simp: inspected_def)
  then show "far alpha_only im x y = far_all im x y"
    by (simp add: far_def far_all_def)
qed

lemma opaque_fields: "mode opaque = RGBA" "width opaque = 3" "height opaque = 2"
  by (simp_all add: opaque_def)

lemma far_opaque: "\<not> far True opaque x y"
  by (simp add: far_def opaque_def inspected_def)

lemma far_all_opaque: "far_all opaque x y \<longleftrightarrow> x = 2 \<and> y = 1"
  by (auto simp: far_all_def opaque_def upt_rec)

lemma differs_opaque: "differs opaque x y \<longleftrightarrow> x = 2 \<and> y = 1"
  by (auto simp: differs_def opaque_def upt_rec)

lemma bbox_differs_opaque: "bbox_of (differs opaque) 3 2 = Some (2, 1, 3, 2)"
  by (simp add: bbox_of_def differs_opaque upt_rec)

lemma bbox_far_all_opaque: "bbox_of (far_all opaque) 3 2 = Some (2, 1, 3, 2)"
  by (simp add: bbox_of_def far_all_opaque upt_rec)

lemma trim_opaque: "trim True opaque = Inr None"
proof -
  have "0 < width opaque" "0 < height opaque" by (simp_all add: opaque_fields)
  moreover have "bbox_of (far True opaque) (width opaque) (height opaque) = None"
    by (simp add: bbox_of_None_iff far_opaque)
  ultimately show ?thesis by (simp only: trim_eq option.case)
qed

lemma trim_opaque_all_bands: "trim False opaque = Inr (Some (crop opaque (2, 1, 3, 2)))"
proof -
  have p: "0 < width opaque" "0 < height opaque" by (simp_all add: opaque_fields)
  have "far False opaque = far_all opaque" by (rule far_eq_far_all) simp
  with trim_eq[OF p, of False] show ?thesis
    by (simp only: opaque_fields bbox_far_all_opaque option.case)
qed

subsection \<open>Path names\<close>

lemma py_split_nonempty: "py_split c s \<noteq> []"
  by (induction s) (auto split: list.splits)

lemma py_split_no_sep: "c \<notin> set s \<Longrightarrow> py_split c s = [s]"
  by (induction s) (auto split: list.splits)

lemma py_split_two_pieces: "2 \<le> length (py_split c (q @ c # r))"
  using py_split_nonempty[of c r]
  by (induction q) (auto split: list.splits simp: Suc_le_eq)

lemma last_py_split_Cons:
  assumes "c \<in> set s" shows "last (py_split c (x # s)) = last (py_split c s)"
proof -
  from assms obtain q r where "s = q @ c # r" by (auto simp: in_set_conv_decomp)
  with py_split_two_pieces[of c q r] have "2 \<le> length (py_split c s)" by simp
  then obtain w v vs where "py_split c s = w # v # vs"
    by (cases "py_split c s"; cases "tl (py_split c s)") auto
  then show ?thesis by simp
qed

lemma last_py_split_append:
  assumes "c \<notin> set s" and "p = [] \<or> last p = c"
  shows "last (py_split c (p @ s)) = s"
  using assms(2)
proof (induction p)
  case Nil
  then show ?case by (simp add: py_split_no_sep[OF assms(1)])
next
  case (Cons x p)
  show ?case
  proof (cases "p = []")
    case True
    with Cons.prems have "x = c" by simp
    with True show ?thesis by (simp add: py_split_nonempty py_split_no_sep[OF assms(1)])
  next
    case False
    with Cons.prems have lp: "last p = c" by simp
    with False have "c \<in> set (p @ s)" by (metis UnCI last_in_set set_append)
    then have "last (py_split c (x # p @ s)) = last (py_split c (p @ s))"
      by (rule last_py_split_Cons)
    with Cons.IH lp show ?thesis by simp
  qed
qed

lemma last_py_split_decomp:
  "\<exists>p. s = p @ last (py_split c s) \<and> (p = [] \<or> last p = c) \<and> c \<notin> set (last (py_split c s))"
proof -
  define b where "b = rev (takeWhile (\<lambda>x. x \<noteq> c) (rev s))"
  define p where "p = rev (dropWhile (\<lambda>x. x \<noteq> c) (rev s))"
  have s: "s = p @ b"
    unfolding p_def b_def by (metis rev_append rev_rev_ident takeWhile_dropWhile_id)
  have b: "c \<notin> set b"
    unfolding b_def by (auto dest: set_takeWhileD)
  have p: "p = [] \<or> last p = c"
  proof (cases "dropWhile (\<lambda>x. x \<noteq> c) (rev s) = []")
    case True
    then show ?thesis by (simp add: p_def)
  next
    case False
    from hd_dropWhile[OF False] have "hd (dropWhile (\<lambda>x. x \<noteq> c) (rev s)) = c" by simp
    with False show ?thesis by (simp add: p_def last_rev)
  qed
  from last_py_split_append[OF b p] have e: "last (py_split c s) = b" by (simp add: s)
  show ?thesis unfolding e by (intro exI[of _ p] conjI) (rule s, rule p, rule b)
qed

lemma endswith_iff: "endswith s t \<longleftrightarrow> (\<exists>q. s = q @ t)"
proof
  assume "endswith s t"
  then have "s = take (length s - length t) s @ t"
    by (metis append_take_drop_id endswith_def)
  then show "\<exists>q. s = q @ t" ..
next
  assume "\<exists>q. s = q @ t"
  then show "endswith s t" by (auto simp: endswith_def)
qed

lemma save_path_name:
  "last (py_split CHR ''/'' (save_path output_dir filename)) =
     drop_last3 (last (py_split CHR ''/'' filename)) @ ''jpg''"
proof -
  define base where "base = last (py_split CHR ''/'' filename)"
  define stem where "stem = drop_last3 base"
  have "CHR ''/'' \<notin> set base"
    unfolding base_def using last_py_split_decomp[of filename "CHR ''/''"] by blast
  then have ns: "CHR ''/'' \<notin> set stem"
    unfolding stem_def drop_last3_def by (auto dest: in_set_takeD)
  then have nj: "CHR ''/'' \<notin> set (stem @ ''jpg'')" by simp
  from ns have nsw: "\<not> startswith stem ''/''" by (rule startswith_slash)
  obtain p where p: "os_path_join output_dir stem = p @ stem" "p = [] \<or> last p = CHR ''/''"
  proof (cases "output_dir = [] \<or> endswith output_dir ''/''")
    case True
    then have "output_dir = [] \<or> last output_dir = CHR ''/''"
      by (auto simp: endswith_iff)
    moreover from True nsw have "os_path_join output_dir stem = output_dir @ stem"
      by (auto simp: os_path_join_def)
    ultimately show ?thesis using that by blast
  next
    case False
    with nsw have "os_path_join output_dir stem = (output_dir @ ''/'') @ stem"
      by (simp add: os_path_join_def)
    moreover have "last (output_dir @ ''/'') = CHR ''/''" by simp
    ultimately show ?thesis using that by blast
  qed
  have "save_path output_dir filename = p @ (stem @ ''jpg'')"
    by (simp add: save_path_def base_def[symmetric] stem_def[symmetric] p(1))
  with last_py_split_append[OF nj p(2)] show ?thesis
    by (simp add: base_def stem_def)
qed

lemma png_basename:
  assumes "endswith filename ''.png''"
  shows "\<exists>stem. last (py_split CHR ''/'' filename) = stem @ ''.png''"
proof -
  define base where "base = last (py_split CHR ''/'' filename)"
  from last_py_split_decomp[of filename "CHR ''/''"]
  obtain p where p: "filename = p @ base" "p = [] \<or> last p = CHR ''/''"
    "CHR ''/'' \<notin> set base" unfolding base_def by blast
  from assms obtain q where q: "filename = q @ ''.png''" by (auto simp: endswith_iff)
  from p(1) q have "p @ base = q @ ''.png''" by simp
  then obtain us where us: "p = q @ us \<and> us @ base = ''.png'' \<or> p @ us = q \<and> base = us @ ''.png''"
    by (auto simp: append_eq_append_conv2)
  then show ?thesis
  proof
    assume a: "p = q @ us \<and> us @ base = ''.png''"
    show ?thesis
    proof (cases "us = []")
      case True
      with a show ?thesis unfolding base_def by auto
    next
      case False
      with a p(2) have "last us = CHR ''/''" by auto
      with False have "CHR ''/'' \<in> set us" by (metis last_in_set)
      then have "CHR ''/'' \<in> set (us @ base)" by simp
      with a show ?thesis by simp
    qed
  next
    assume "p @ us = q \<and> base = us @ ''.png''"
    then show ?thesis unfolding base_def by blast
  qed
qed

subsection \<open>The claims about trimming and saving\<close>

text \<open>
  Claim C4.  An image with at least one pixel, all of whose pixels have the colour of pixel
  \<open>(0, 0)\<close>, has no bounding box, so \<open>trim\<close> returns \<^verbatim>\<open>None\<close>.  The pipeline does not
  treat this as "no crop": \<^verbatim>\<open>image.load()\<close> is called on \<^verbatim>\<open>None\<close> and raises
  AttributeError.
\<close>

theorem uniform_image_raises:
  assumes "fs filename = Some im" and "0 < width im" and "0 < height im"
    and "\<forall>x<width im. \<forall>y<height im. \<forall>b<bands (mode im). px im x y b = px im 0 0 b"
  shows "bbox_of (far ao im) (width im) (height im) = None \<and> trim ao im = Inr None \<and>
         deborder_and_save ao blend fs filename output_dir = Inl AttributeError"
proof -
  have nf: "\<not> far ao im x y" if xy: "x < width im" "y < height im" for x y
  proof
    assume "far ao im x y"
    then obtain b where b: "b \<in> set (inspected ao (mode im))"
      and d: "100 < \<bar>uint (px im x y b) - uint (px im 0 0 b)\<bar>"
      unfolding far_def list_ex_iff by blast
    from b have "b < bands (mode im)" by (rule inspected_lt_bands)
    with assms(4) xy have "px im x y b = px im 0 0 b" by blast
    with d show False by simp
  qed
  have none: "bbox_of (far ao im) (width im) (height im) = None"
    unfolding bbox_of_None_iff using nf by blast
  have t: "trim ao im = Inr None"
    unfolding trim_eq[OF assms(2,3)] none by simp
  have "deborder_and_save ao blend fs filename output_dir = Inl AttributeError"
    by (simp add: deborder_and_save_def assms(1) t)
  with none t show ?thesis by blast
qed

text \<open>A single white pixel stored as \<^verbatim>\<open>in/blank.png\<close>.\<close>

theorem uniform_image_raises_witness:
  "[''in/blank.png'' \<mapsto> blank] ''in/blank.png'' = Some blank \<and>
   0 < width blank \<and> 0 < height blank \<and>
   list_all (\<lambda>b. px blank 0 0 b = 255) [0..<bands (mode blank)] \<and>
   trim True blank = Inr None \<and>
   deborder_and_save True (\<lambda>m d s. s) [''in/blank.png'' \<mapsto> blank] ''in/blank.png'' ''out''
     = Inl AttributeError"
proof -
  have a: "[''in/blank.png'' \<mapsto> blank] ''in/blank.png'' = Some blank" by simp
  have b: "0 < width blank" "0 < height blank" by (simp_all add: blank_fields)
  have c: "\<forall>x<width blank. \<forall>y<height blank. \<forall>b<bands (mode blank). px blank x y b = px blank 0 0 b"
    by (simp add: blank_def)
  have d: "list_all (\<lambda>b. px blank 0 0 b = 255) [0..<bands (mode blank)]"
    by (simp add: blank_def list_all_iff)
  note r = uniform_image_raises[where fs = "[''in/blank.png'' \<mapsto> blank]"
      and filename = "''in/blank.png''" and im = blank and ao = True
      and blend = "\<lambda>m d s. s" and output_dir = "''out''", OF a b c]
  from r have "trim True blank = Inr None"
    and "deborder_and_save True (\<lambda>m d s. s) [''in/blank.png'' \<mapsto> blank] ''in/blank.png'' ''out''
           = Inl AttributeError" by blast+
  with a b d show ?thesis by blast
qed

text \<open>
  Claim C5, as the code has it.  Call a pixel far from the background when one of its
  bands is more than 100 away from that band of pixel \<open>(0, 0)\<close>.  Where \<^verbatim>\<open>getbbox\<close>
  inspects every band of the image, that is for an image without alpha band and for any
  image when \<^verbatim>\<open>getbbox\<close> is not alpha-only, an image with a far pixel is cropped by
  \<open>trim\<close> to exactly the bounding box of its far pixels: same mode, the size of the box,
  and the pixels of the box.
\<close>

theorem trim_crops_to_far_pixels:
  assumes "x < width im" and "y < height im" and "far_all im x y"
    and "\<not> (alpha_only \<and> (mode im = LA \<or> mode im = RGBA))"
  shows "\<exists>l u r d. trim alpha_only im = Inr (Some (crop im (l, u, r, d))) \<and>
           is_bbox (far_all im) (width im) (height im) (l, u, r, d) \<and>
           mode (crop im (l, u, r, d)) = mode im \<and>
           width (crop im (l, u, r, d)) = r - l \<and> height (crop im (l, u, r, d)) = d - u \<and>
           (\<forall>i<r - l. \<forall>j<d - u. \<forall>b. px (crop im (l, u, r, d)) i j b = px im (i + l) (j + u) b)"
proof -
  note fa = far_eq_far_all[OF assms(4)]
  from assms have pos: "0 < width im" "0 < height im" by auto
  from assms(1-3) have "bbox_of (far_all im) (width im) (height im) \<noteq> None"
    unfolding bbox_of_None_iff by blast
  then obtain l u r d where box: "bbox_of (far_all im) (width im) (height im) = Some (l, u, r, d)"
    by (cases "bbox_of (far_all im) (width im) (height im)") auto
  then have bb: "is_bbox (far_all im) (width im) (height im) (l, u, r, d)" by (rule bbox_of_Some)
  then have rd: "r \<le> width im" "d \<le> height im" by (simp_all add: is_bbox_def)
  have t: "trim alpha_only im = Inr (Some (crop im (l, u, r, d)))"
    using trim_eq[OF pos, of alpha_only] box by (simp add: fa)
  have "px (crop im (l, u, r, d)) i j b = px im (i + l) (j + u) b"
    if "i < r - l" "j < d - u" for i j b
  proof -
    from that rd have "i + l < width im" "j + u < height im" by linarith+
    then show ?thesis by (simp add: px_crop)
  qed
  with t bb show ?thesis by (intro exI[of _ l] exI[of _ u] exI[of _ r] exI[of _ d]) simp
qed

text \<open>In the grey strip only the bright pixel is far from the background.\<close>

theorem trim_crops_to_far_pixels_witness:
  "(2::nat) < width strip \<and> (0::nat) < height strip \<and> far_all strip 2 0 \<and> mode strip = L \<and>
   trim True strip = Inr (Some (crop strip (2, 0, 3, 1))) \<and>
   is_bbox (far_all strip) (width strip) (height strip) (2, 0, 3, 1)"
proof -
  have a: "(2::nat) < width strip" "(0::nat) < height strip" by (simp_all add: strip_fields)
  have m: "mode strip = L" by (rule strip_fields)
  have c: "\<not> (True \<and> (mode strip = LA \<or> mode strip = RGBA))" by (simp add: m)
  have e: "far True strip = far_all strip" using c by (rule far_eq_far_all)
  have b: "far_all strip 2 0" unfolding e[symmetric] by (simp add: far_strip)
  from trim_crops_to_far_pixels[OF a b c] obtain l u r d where
    t: "trim True strip = Inr (Some (crop strip (l, u, r, d)))"
    and bb: "is_bbox (far_all strip) (width strip) (height strip) (l, u, r, d)" by blast
  have "bbox_of (far True strip) (width strip) (height strip) = Some (2, 0, 3, 1)"
    by (simp only: strip_fields bbox_far_strip)
  then have "is_bbox (far_all strip) (width strip) (height strip) (2, 0, 3, 1)"
    unfolding e by (rule bbox_of_Some)
  with bb have "(l, u, r, d) = (2, 0, 3, 1)" by (rule is_bbox_unique)
  with bb t a b m show ?thesis by blast
qed

text \<open>
  As stated, claim C5 fails twice.  In the grey strip the pixels at \<open>x = 1\<close> and
  \<open>x = 2\<close> both differ from the corner, so the box of the differing pixels is
  \<open>(1, 0, 3, 1)\<close>, but the faint pixel is left out and \<open>trim\<close> crops to \<open>(2, 0, 3, 1)\<close>.
  In the opaque image the red pixel differs from the corner by 255, but an alpha-only
  \<^verbatim>\<open>getbbox\<close> sees a constant alpha band and \<open>trim\<close> returns \<^verbatim>\<open>None\<close>; a \<^verbatim>\<open>getbbox\<close> that
  inspects all bands crops to the pixel.
\<close>

theorem trim_ignores_faint_pixels_counterexample:
  "bbox_of (differs strip) (width strip) (height strip) = Some (1, 0, 3, 1) \<and>
   trim True strip = Inr (Some (crop strip (2, 0, 3, 1))) \<and>
   width (crop strip (2, 0, 3, 1)) \<noteq> width (crop strip (1, 0, 3, 1)) \<and>
   trim True strip \<noteq> Inr (Some (crop strip (1, 0, 3, 1))) \<and>
   bbox_of (differs opaque) (width opaque) (height opaque) = Some (2, 1, 3, 2) \<and>
   bbox_of (far_all opaque) (width opaque) (height opaque) = Some (2, 1, 3, 2) \<and>
   trim True opaque = Inr None \<and>
   trim False opaque = Inr (Some (crop opaque (2, 1, 3, 2)))"
proof -
  have 1: "bbox_of (differs strip) (width strip) (height strip) = Some (1, 0, 3, 1)"
    by (simp only: strip_fields bbox_differs_strip)
  have 2: "trim True strip = Inr (Some (crop strip (2, 0, 3, 1)))" by (rule trim_strip)
  have 3: "width (crop strip (2, 0, 3, 1)) \<noteq> width (crop strip (1, 0, 3, 1))" by simp
  then have "crop strip (2, 0, 3, 1) \<noteq> crop strip (1, 0, 3, 1)" by metis
  then have 4: "trim True strip \<noteq> Inr (Some (crop strip (1, 0, 3, 1)))"
    unfolding 2 by simp
  have 5: "bbox_of (differs opaque) (width opaque) (height opaque) = Some (2, 1, 3, 2)"
    by (simp only: opaque_fields bbox_differs_opaque)
  have 6: "bbox_of (far_all opaque) (width opaque) (height opaque) = Some (2, 1, 3, 2)"
    by (simp only: opaque_fields bbox_far_all_opaque)
  from 1 2 3 4 5 6 trim_opaque trim_opaque_all_bands show ?thesis by blast
qed

text \<open>
  Claim C6, as the code has it.  Whenever the pipeline saves a file, the white background
  it created has the size of the trimmed image and mode RGB, while the trimmed image, whose
  fourth band is the mask, has mode RGBA.
\<close>

theorem background_size_and_mode:
  assumes "deborder_and_save ao blend fs filename output_dir = Inr fs'"
  shows "\<exists>opened trimmed. fs filename = Some opened \<and> trim ao opened = Inr (Some trimmed) \<and>
           fs' = fs(save_path output_dir filename \<mapsto>
                    paste blend (new_background trimmed) trimmed (\<lambda>x y. px trimmed x y 3)) \<and>
           width (new_background trimmed) = width trimmed \<and>
           height (new_background trimmed) = height trimmed \<and>
           mode (new_background trimmed) = RGB \<and> mode trimmed = RGBA"
proof -
  from deborder_and_save_InrD[OF assms] obtain opened t where
    "fs filename = Some opened" "trim ao opened = Inr (Some t)" "3 < bands (mode t)"
    "fs' = fs(save_path output_dir filename \<mapsto>
               paste blend (new_background t) t (\<lambda>x y. px t x y 3))"
    by blast
  then show ?thesis
    by (intro exI[of _ opened] exI[of _ t]) (simp add: new_background_fields bands_gt3)
qed

text \<open>The red dot stored as \<^verbatim>\<open>in/dot.png\<close> is trimmed to one pixel and saved.\<close>

theorem background_size_and_mode_witness:
  "deborder_and_save True (\<lambda>m d s. s) [''in/dot.png'' \<mapsto> dot] ''in/dot.png'' ''out''
     = Inr ([''in/dot.png'' \<mapsto> dot, save_path ''out'' ''in/dot.png'' \<mapsto>
         paste (\<lambda>m d s. s) (new_background (crop dot (1, 1, 2, 2))) (crop dot (1, 1, 2, 2))
           (\<lambda>x y. px (crop dot (1, 1, 2, 2)) x y 3)]) \<and>
   width (new_background (crop dot (1, 1, 2, 2))) = 1 \<and>
   height (new_background (crop dot (1, 1, 2, 2))) = 1 \<and>
   mode (new_background (crop dot (1, 1, 2, 2))) = RGB"
proof -
  have a: "[''in/dot.png'' \<mapsto> dot] ''in/dot.png'' = Some dot" by simp
  have b: "3 < bands (mode (crop dot (1, 1, 2, 2)))" by (simp add: dot_fields)
  note e = deborder_and_save_eq[where fs = "[''in/dot.png'' \<mapsto> dot]"
      and filename = "''in/dot.png''" and ao = True and blend = "\<lambda>m d s. s"
      and output_dir = "''out''", OF a trim_dot b]
  from background_size_and_mode[OF e] obtain opened trimmed where
    "[''in/dot.png'' \<mapsto> dot] ''in/dot.png'' = Some opened"
    "trim True opened = Inr (Some trimmed)"
    "width (new_background trimmed) = width trimmed"
    "height (new_background trimmed) = height trimmed"
    "mode (new_background trimmed) = RGB" by blast
  then have "width (new_background (crop dot (1, 1, 2, 2))) = 1 \<and>
    height (new_background (crop dot (1, 1, 2, 2))) = 1 \<and>
    mode (new_background (crop dot (1, 1, 2, 2))) = RGB"
    by (auto simp: trim_dot)
  with e show ?thesis by (simp only: simp_thms)
qed

text \<open>
  As stated, claim C6 fails on the mode: the red dot is trimmed to an RGBA image and the
  background created for it is RGB.
\<close>

theorem background_mode_counterexample:
  "trim True dot = Inr (Some (crop dot (1, 1, 2, 2))) \<and>
   mode (crop dot (1, 1, 2, 2)) = RGBA \<and>
   mode (new_background (crop dot (1, 1, 2, 2))) \<noteq> mode (crop dot (1, 1, 2, 2))"
  by (simp add: trim_dot dot_fields new_background_fields)

text \<open>
  Claim C7.  Whatever the input filename and the output directory, the last component of
  the path that is saved is the input's basename without its last three characters,
  followed by \<^verbatim>\<open>jpg\<close>; for an input ending in \<^verbatim>\<open>.png\<close> this is the basename with
  \<^verbatim>\<open>.jpg\<close> in place of \<^verbatim>\<open>.png\<close>.  A successful run of the pipeline stores exactly one
  file, under that path.
\<close>

theorem output_name:
  "last (py_split CHR ''/'' (save_path output_dir filename)) =
     drop_last3 (last (py_split CHR ''/'' filename)) @ ''jpg'' \<and>
   (endswith filename ''.png'' \<longrightarrow>
      (\<exists>stem. last (py_split CHR ''/'' filename) = stem @ ''.png'' \<and>
              last (py_split CHR ''/'' (save_path output_dir filename)) = stem @ ''.jpg'')) \<and>
   (\<forall>fs'. deborder_and_save ao blend fs filename output_dir = Inr fs' \<longrightarrow>
      (\<exists>out. fs' = fs(save_path output_dir filename \<mapsto> out)))"
proof (intro conjI impI allI)
  show n: "last (py_split CHR ''/'' (save_path output_dir filename)) =
     drop_last3 (last (py_split CHR ''/'' filename)) @ ''jpg''"
    by (rule save_path_name)
  show "\<exists>stem. last (py_split CHR ''/'' filename) = stem @ ''.png'' \<and>
              last (py_split CHR ''/'' (save_path output_dir filename)) = stem @ ''.jpg''"
    if "endswith filename ''.png''"
  proof -
    from png_basename[OF that] obtain stem where
      s: "last (py_split CHR ''/'' filename) = stem @ ''.png''" by blast
    then have "drop_last3 (last (py_split CHR ''/'' filename)) = stem @ ''.''"
      by (simp add: drop_last3_def)
    with n s show ?thesis by simp
  qed
  show "\<exists>out. fs' = fs(save_path output_dir filename \<mapsto> out)"
    if "deborder_and_save ao blend fs filename output_dir = Inr fs'" for fs'
    using deborder_and_save_InrD[OF that] by blast
qed

text \<open>The red dot stored as \<^verbatim>\<open>data/img0.png\<close> is saved as \<^verbatim>\<open>out/train_spec/img0.jpg\<close>.\<close>

theorem output_name_witness:
  "endswith ''data/img0.png'' ''.png'' \<and>
   save_path ''out/train_spec'' ''data/img0.png'' = ''out/train_spec/img0.jpg'' \<and>
   last (py_split CHR ''/'' (save_path ''out/train_spec'' ''data/img0.png'')) = ''img0.jpg'' \<and>
   (\<exists>out. deborder_and_save True (\<lambda>m d s. s) [''data/img0.png'' \<mapsto> dot] ''data/img0.png''
            ''out/train_spec''
          = Inr ([''data/img0.png'' \<mapsto> dot, ''out/train_spec/img0.jpg'' \<mapsto> out]))"
proof -
  have a: "endswith ''data/img0.png'' ''.png''" by (simp add: endswith_def)
  have b: "last (py_split CHR ''/'' ''data/img0.png'') = ''img0.png''" by simp
  have c: "save_path ''out/train_spec'' ''data/img0.png'' = ''out/train_spec/img0.jpg''"
    by (simp add: save_path_def os_path_join_def startswith_def endswith_def drop_last3_def)
  have f: "[''data/img0.png'' \<mapsto> dot] ''data/img0.png'' = Some dot" by simp
  have g: "3 < bands (mode (crop dot (1, 1, 2, 2)))" by (simp add: dot_fields)
  note e = deborder_and_save_eq[where fs = "[''data/img0.png'' \<mapsto> dot]"
      and filename = "''data/img0.png''" and ao = True and blend = "\<lambda>m d s. s"
      and output_dir = "''out/train_spec''", OF f trim_dot g]
  note t = output_name[where output_dir = "''out/train_spec''" and filename = "''data/img0.png''"
      and ao = True and blend = "\<lambda>m d s. s" and fs = "[''data/img0.png'' \<mapsto> dot]"]
  from t have "last (py_split CHR ''/'' (save_path ''out/train_spec'' ''data/img0.png'')) =
     drop_last3 (last (py_split CHR ''/'' ''data/img0.png'')) @ ''jpg''" by blast
  then have n: "last (py_split CHR ''/'' (save_path ''out/train_spec'' ''data/img0.png'')) = ''img0.jpg''"
    unfolding b by (simp add: drop_last3_def)
  from t e have "\<exists>out. deborder_and_save True (\<lambda>m d s. s) [''data/img0.png'' \<mapsto> dot]
      ''data/img0.png'' ''out/train_spec''
      = Inr ([''data/img0.png'' \<mapsto> dot, save_path ''out/train_spec'' ''data/img0.png'' \<mapsto> out])"
    by (intro exI) (rule e)
  then have d: "\<exists>out. deborder_and_save True (\<lambda>m d s. s) [''data/img0.png'' \<mapsto> dot]
      ''data/img0.png'' ''out/train_spec''
      = Inr ([''data/img0.png'' \<mapsto> dot, ''out/train_spec/img0.jpg'' \<mapsto> out])"
    unfolding c .
  from a c n d show ?thesis by blast
qed

text \<open>
  Claim C8.  For an image with at least one pixel, \<open>trim\<close> takes the bounding box of the
  amplified difference image \<open>a\<close> = \<^verbatim>\<open>ImageChops.add(d, d, 2.0, -100)\<close>, where \<open>d\<close> is the
  band-wise absolute difference from the corner colour.  Every band value \<open>v\<close> of \<open>d\<close>
  becomes \<open>(v + v) / 2 - 100\<close> clipped to \<open>0..255\<close>, which is \<open>v - 100\<close> or zero.  A band
  value of at most 100 becomes zero, a pixel all of whose inspected bands are at most 100
  is not a non-zero pixel, and the bounding box that \<open>trim\<close> crops to is the box of the
  pixels with an inspected band above 100.
\<close>

theorem amplified_difference:
  assumes "0 < width im" and "0 < height im"
    and "bg = new_image (mode im) (width im) (height im) (map (px im 0 0) [0..<bands (mode im)])"
    and "d = chop_difference im bg"
    and "a = chop_add d d 2 (- 100)"
  shows
   "trim alpha_only im =
      (case getbbox alpha_only a of Some box \<Rightarrow> Inr (Some (crop im box)) | None \<Rightarrow> Inr None) \<and>
    (\<forall>x y b. b < bands (mode im) \<longrightarrow>
       uint (px d x y b) = \<bar>uint (px im x y b) - uint (px im 0 0 b)\<bar>) \<and>
    (\<forall>x y b.
       px a x y b = clip8 (trunc (of_int (uint (px d x y b) + uint (px d x y b)) / 2 + of_int (- 100))) \<and>
       uint (px a x y b) = max 0 (uint (px d x y b) - 100) \<and>
       (uint (px d x y b) \<le> 100 \<longrightarrow> px a x y b = 0)) \<and>
    (\<forall>x y. (\<forall>c \<in> set (inspected alpha_only (mode im)). uint (px d x y c) \<le> 100) \<longrightarrow>
       \<not> nonzero alpha_only a x y) \<and>
    getbbox alpha_only a =
      bbox_of (\<lambda>x y. list_ex (\<lambda>c. 100 < uint (px d x y c)) (inspected alpha_only (mode im)))
        (width im) (height im)"
proof -
  have md: "mode d = mode im" "width d = width im" "height d = height im"
    unfolding assms(4) assms(3) by simp_all
  have ma: "mode a = mode im" "width a = width im" "height a = height im"
    unfolding assms(5) using md by simp_all
  have 1: "trim alpha_only im =
      (case getbbox alpha_only a of Some box \<Rightarrow> Inr (Some (crop im box)) | None \<Rightarrow> Inr None)"
    using assms(1,2) unfolding assms(5) assms(4) assms(3)
    by (simp add: trim_def getpixel_def Let_def)
  have 2: "uint (px d x y b) = \<bar>uint (px im x y b) - uint (px im 0 0 b)\<bar>"
    if "b < bands (mode im)" for x y b
    unfolding assms(4) assms(3) using that by (simp add: uint_abs_diff)
  have v: "uint (px d x y b) < 256" for x y b
    using uint_bounded[of "px d x y b"] by simp
  have 3: "px a x y b = clip8 (trunc (of_int (uint (px d x y b) + uint (px d x y b)) / 2 + of_int (- 100)))"
    for x y b unfolding assms(5) by (rule px_chop_add)
  have 4: "uint (px a x y b) = max 0 (uint (px d x y b) - 100)" for x y b
    unfolding assms(5) using v[of x y b] by (simp add: amplify_self uint_clip8 max_def)
  have 5: "px a x y b = 0" if "uint (px d x y b) \<le> 100" for x y b
    unfolding assms(5) using that by (simp add: amplify_self clip8_eq_0_iff)
  have nz: "nonzero alpha_only a x y
      = list_ex (\<lambda>c. 100 < uint (px d x y c)) (inspected alpha_only (mode im))" for x y
    unfolding nonzero_def ma unfolding assms(5)
    by (simp add: amplify_self clip8_eq_0_iff not_le)
  have 6: "\<not> nonzero alpha_only a x y"
    if "\<forall>c \<in> set (inspected alpha_only (mode im)). uint (px d x y c) \<le> 100" for x y
    unfolding nz list_ex_iff using that by (auto simp: not_less)
  have "nonzero alpha_only a
      = (\<lambda>x y. list_ex (\<lambda>c. 100 < uint (px d x y c)) (inspected alpha_only (mode im)))"
    by (intro ext) (rule nz)
  then have 7: "getbbox alpha_only a =
      bbox_of (\<lambda>x y. list_ex (\<lambda>c. 100 < uint (px d x y c)) (inspected alpha_only (mode im)))
        (width im) (height im)"
    by (simp add: getbbox_def ma)
  from 1 2 3 4 5 6 7 show ?thesis by blast
qed

text \<open>
  The grey strip: the faint pixel differs by 50, which is amplified to zero; the bright
  pixel differs by 200, which is amplified to 100, and the strip is cropped to it.
\<close>

theorem amplified_difference_witness:
  "0 < width strip \<and> 0 < height strip \<and>
   uint (px (chop_difference strip (new_image L 3 1 [0])) 1 0 0) = 50 \<and>
   px (chop_add (chop_difference strip (new_image L 3 1 [0]))
                (chop_difference strip (new_image L 3 1 [0])) 2 (- 100)) 1 0 0 = 0 \<and>
   \<not> nonzero True (chop_add (chop_difference strip (new_image L 3 1 [0]))
                (chop_difference strip (new_image L 3 1 [0])) 2 (- 100)) 1 0 \<and>
   uint (px (chop_add (chop_difference strip (new_image L 3 1 [0]))
                (chop_difference strip (new_image L 3 1 [0])) 2 (- 100)) 2 0 0) = 100 \<and>
   getbbox True (chop_add (chop_difference strip (new_image L 3 1 [0]))
                (chop_difference strip (new_image L 3 1 [0])) 2 (- 100)) = Some (2, 0, 3, 1) \<and>
   trim True strip = Inr (Some (crop strip (2, 0, 3, 1)))"
proof -
  define bg where "bg = new_image (mode strip) (width strip) (height strip)
    (map (px strip 0 0) [0..<bands (mode strip)])"
  define d where "d = chop_difference strip bg"
  define a where "a = chop_add d d 2 (- 100)"
  have p: "0 < width strip" "0 < height strip" by (simp_all add: strip_fields)
  note t = amplified_difference[OF p bg_def d_def a_def, of True]
  have bg: "bg = new_image L 3 1 [0]"
    unfolding bg_def by (simp add: strip_fields) (simp add: strip_def)
  have m: "inspected True (mode strip) = [0]" by (simp add: strip_fields inspected_def)
  have d1: "uint (px d 1 0 0) = 50" unfolding d_def bg by (simp add: strip_def)
  have d2: "uint (px d 2 0 0) = 200" unfolding d_def bg by (simp add: strip_def)
  have h1: "uint (px d 1 0 0) \<le> 100" unfolding d1 by simp
  have h2: "\<forall>c \<in> set (inspected True (mode strip)). uint (px d 1 0 c) \<le> 100"
    unfolding m using h1 by simp
  from t h1 have a1: "px a 1 0 0 = 0" by blast
  from t h2 have a2: "\<not> nonzero True a 1 0" by blast
  from t have "uint (px a 2 0 0) = max 0 (uint (px d 2 0 0) - 100)" by blast
  then have a3: "uint (px a 2 0 0) = 100" unfolding d2 by simp
  from t have tr: "trim True strip =
      (case getbbox True a of Some box \<Rightarrow> Inr (Some (crop strip box)) | None \<Rightarrow> Inr None)"
    by blast
  from t have "getbbox True a =
      bbox_of (\<lambda>x y. list_ex (\<lambda>c. 100 < uint (px d x y c)) (inspected True (mode strip)))
        (width strip) (height strip)" by blast
  also have "(\<lambda>x y. list_ex (\<lambda>c. 100 < uint (px d x y c)) (inspected True (mode strip)))
      = (\<lambda>x y. x = 2)"
    unfolding m d_def bg by (intro ext) (simp add: strip_def)
  also have "bbox_of (\<lambda>x y. x = 2) (width strip) (height strip) = Some (2, 0, 3, 1)"
    unfolding strip_fields by (simp add: bbox_of_def upt_rec)
  finally have g: "getbbox True a = Some (2, 0, 3, 1)" .
  from tr have a4: "trim True strip = Inr (Some (crop strip (2, 0, 3, 1)))"
    unfolding g by simp
  from p d1 a1 a2 a3 g a4 show ?thesis
    unfolding a_def d_def bg by blast
qed

text \<open>
  Claim C10.  Whenever \<open>trim\<close> returns an image, that image is no wider and no higher than
  the input.
\<close>

theorem trim_within_bounds:
  assumes "trim ao im = Inr (Some c)"
  shows "width c \<le> width im \<and> height c \<le> height im"
proof (cases "width im = 0 \<or> height im = 0")
  case True
  from trim_empty[OF this, of ao] assms show ?thesis by simp
next
  case False
  then have pos: "0 < width im" "0 < height im" by simp_all
  from assms obtain box where box: "bbox_of (far ao im) (width im) (height im) = Some box"
    and c: "c = crop im box"
    unfolding trim_eq[OF pos] by (auto split: option.splits)
  obtain l u r d where b: "box = (l, u, r, d)" by (cases box) auto
  from bbox_of_Some[OF box] have "r \<le> width im" "d \<le> height im"
    unfolding b is_bbox_def by simp_all
  then show ?thesis unfolding c b by (simp add: le_diff_conv trans_le_add1)
qed

text \<open>The grey strip, three pixels wide, is trimmed to one pixel.\<close>

theorem trim_within_bounds_witness:
  "trim True strip = Inr (Some (crop strip (2, 0, 3, 1))) \<and>
   width (crop strip (2, 0, 3, 1)) = 1 \<and> width strip = 3 \<and>
   width (crop strip (2, 0, 3, 1)) \<le> width strip \<and>
   height (crop strip (2, 0, 3, 1)) \<le> height strip"
proof -
  have t: "trim True strip = Inr (Some (crop strip (2, 0, 3, 1)))" by (rule trim_strip)
  from trim_within_bounds[OF t] t show ?thesis by (simp add: strip_fields)
qed

end
